theory Spec2Isabelle
  imports Main
begin

section \<open>Errors and machine sizes\<close>

text \<open>
  Every way the C++ code leaves an operation other than by returning is a value:
  \<^item> \<open>Resource_error\<close>: the \<open>std::system_error\<close> of a failed mapping call;
  \<^item> \<open>Out_of_range\<close>: the \<open>std::out_of_range\<close> thrown by \<open>at\<close>;
  \<^item> \<open>Assertion_failed\<close>: a failing \<open>assert\<close>;
  \<^item> \<open>Undefined_behaviour\<close>: a read or write through \<open>data()\<close> outside the mapped
    cells, or \<open>std::fill\<close> on a range that is not one;
  \<^item> \<open>Pbf_error\<close>: the \<open>osmium::pbf_error\<close> thrown by \<open>StringTable::add\<close>.
\<close>

datatype error =
  Resource_error | Out_of_range | Assertion_failed | Undefined_behaviour | Pbf_error

text \<open>
  \<open>size_t\<close> is taken to be 64 bits wide. Sizes are natural numbers below \<open>2 ^ 64\<close>;
  the two places where the code adds to a \<open>size_t\<close> wrap around as unsigned
  arithmetic does.
\<close>

definition size_t_add :: "nat \<Rightarrow> nat \<Rightarrow> nat" where
  "size_t_add a b = (a + b) mod 2 ^ 64"

definition size_t_sub :: "nat \<Rightarrow> nat \<Rightarrow> nat" where
  "size_t_sub a b = (a + 2 ^ 64 - b mod 2 ^ 64) mod 2 ^ 64"

definition mmap_vector_size_increment :: nat where
  "mmap_vector_size_increment = 1024 * 1024"

section \<open>The platform and the memory mapping\<close>

text \<open>
  What the element type and the operating system supply:
  \<open>empty_value\<close> is \<open>osmium::index::empty_value<T>()\<close> (declared in
  \<open>osmium/index/index.hpp\<close>, which is not among the sources, so it is a parameter);
  \<open>mappable\<close> is the largest number of elements the system will map;
  \<open>unwritten i\<close> is what cell \<open>i\<close> of freshly mapped memory holds before anything
  is stored there; \<open>zero_filled\<close> is the element whose bytes are all zero, which is
  what a file is extended with.
\<close>

record 'a platform =
  empty_value :: 'a
  mappable :: nat
  unwritten :: "nat \<Rightarrow> 'a"
  zero_filled :: 'a

text \<open>
  Modelled from the spec: \<open>osmium::util::TypedMemoryMapping<T>\<close>
  (\<open>osmium/util/memory_mapping.hpp\<close>) is not among the sources. A mapping is the list
  of its cells, \<open>size()\<close> is the length of that list. Creating a mapping of zero
  elements, or of more than the system can map, is a resource error; the content of an
  anonymous mapping is unspecified (\<open>unwritten\<close>).
\<close>

definition mapping_anon :: "'a platform \<Rightarrow> nat \<Rightarrow> error + 'a list" where
  "mapping_anon P n =
     (if n = 0 \<or> mappable P < n then Inl Resource_error
      else Inr (map (unwritten P) [0..<n]))"

text \<open>
  Modelled from the spec: \<open>grow_file(n, fd)\<close> of the mapping primitive, which is not
  among the sources: it extends the file to at least \<open>n\<close> elements, zero-filled, and
  changes nothing when the file is long enough already. A file is the list of the
  elements stored in it.
\<close>

definition grow_file :: "'a platform \<Rightarrow> nat \<Rightarrow> 'a list \<Rightarrow> 'a list" where
  "grow_file P n file = file @ replicate (n - length file) (zero_filled P)"

text \<open>
  Modelled from the spec: the file-backed constructor of
  \<open>osmium::util::TypedMemoryMapping<T>\<close> in mode \<open>write_shared\<close>, not among the
  sources. It grows the file if needed and maps its first \<open>n\<close> elements; the cells of
  the mapping are the content of the file.
\<close>

definition mapping_file :: "'a platform \<Rightarrow> 'a list \<Rightarrow> nat \<Rightarrow> error + 'a list" where
  "mapping_file P file n =
     (if n = 0 \<or> mappable P < n then Inl Resource_error
      else Inr (take n (grow_file P n file)))"

text \<open>
  Modelled from the spec: \<open>TypedMemoryMapping<T>::resize\<close>, not among the sources.
  The first \<open>min old new\<close> cells are preserved, added cells hold unspecified content,
  and a failed call leaves the previous mapping untouched and usable. The result is
  the error raised, if any, and the mapping as it is after the call.
\<close>

definition mapping_resize :: "'a platform \<Rightarrow> 'a list \<Rightarrow> nat \<Rightarrow> error option \<times> 'a list" where
  "mapping_resize P cells n =
     (if n = 0 \<or> mappable P < n then (Some Resource_error, cells)
      else (None, take n cells @ map (unwritten P) [length cells..<n]))"

section \<open>\<open>mmap_vector_base\<close>\<close>

record 'a mmap_vector_base =
  m_size :: nat
  m_mapping :: "'a list"

definition capacity :: "'a mmap_vector_base \<Rightarrow> nat" where
  "capacity v = length (m_mapping v)"

definition size_mv :: "'a mmap_vector_base \<Rightarrow> nat" where
  "size_mv v = m_size v"

definition empty_mv :: "'a mmap_vector_base \<Rightarrow> bool" where
  "empty_mv v = (m_size v = 0)"

text \<open>
  \<open>std::fill(data() + first, data() + last, x)\<close>: the loop stores \<open>x\<close> into the cells
  \<open>first, first + 1, ...\<close> until it reaches \<open>last\<close>. It is undefined when
  \<open>first > last\<close> or when the range leaves the mapping.
\<close>

function fill_loop :: "'a list \<Rightarrow> nat \<Rightarrow> nat \<Rightarrow> 'a \<Rightarrow> 'a list" where
  "fill_loop cells frst lst x =
     (if frst < lst then fill_loop (cells[frst := x]) (Suc frst) lst x else cells)"
  by pat_completeness auto
termination
  by (relation "measure (\<lambda>(cells, frst, lst, x). lst - frst)") auto

definition std_fill :: "'a list \<Rightarrow> nat \<Rightarrow> nat \<Rightarrow> 'a \<Rightarrow> error + 'a list" where
  "std_fill cells frst lst x =
     (if lst < frst \<or> length cells < lst then Inl Undefined_behaviour
      else Inr (fill_loop cells frst lst x))"

text \<open>
  \<open>at\<close> is a \<open>const\<close> member: it is a function of the vector that returns a value or
  an error and no vector.
\<close>

definition at :: "'a mmap_vector_base \<Rightarrow> nat \<Rightarrow> error + 'a" where
  "at v n =
     (if m_size v \<le> n then Inl Out_of_range
      else if capacity v \<le> n then Inl Undefined_behaviour
      else Inr (m_mapping v ! n))"

definition clear :: "'a mmap_vector_base \<Rightarrow> 'a mmap_vector_base" where
  "clear v = v\<lparr>m_size := 0\<rparr>"

text \<open>
  The mutating members return the error they raise, if any, together with the vector
  as it is when they return or raise.
\<close>

function shrink_to_fit ::
  "'a platform \<Rightarrow> 'a mmap_vector_base \<Rightarrow> error option \<times> 'a mmap_vector_base" where
  "shrink_to_fit P v =
     (if 0 < m_size v then
        (if capacity v \<le> m_size v - 1 then (Some Undefined_behaviour, v)
         else if m_mapping v ! (m_size v - 1) = empty_value P
           then shrink_to_fit P (v\<lparr>m_size := m_size v - 1\<rparr>)
           else (None, v))
      else (None, v))"
  by pat_completeness auto
termination
  by (relation "measure (\<lambda>(P, v). m_size v)") auto

definition reserve ::
  "'a platform \<Rightarrow> 'a mmap_vector_base \<Rightarrow> nat \<Rightarrow> error option \<times> 'a mmap_vector_base" where
  "reserve P v new_capacity =
     (if capacity v < new_capacity then
        (let old_capacity = capacity v;
             (r, cells) = mapping_resize P (m_mapping v) new_capacity;
             v1 = v\<lparr>m_mapping := cells\<rparr>
         in case r of
              Some e \<Rightarrow> (Some e, v1)
            | None \<Rightarrow>
               (case std_fill cells old_capacity new_capacity (empty_value P) of
                  Inl e \<Rightarrow> (Some e, v1)
                | Inr cells' \<Rightarrow> (None, v1\<lparr>m_mapping := cells'\<rparr>)))
      else (None, v))"

definition resize ::
  "'a platform \<Rightarrow> 'a mmap_vector_base \<Rightarrow> nat \<Rightarrow> error option \<times> 'a mmap_vector_base" where
  "resize P v new_size =
     (let (r, v1) =
            (if capacity v < new_size
             then reserve P v (size_t_add new_size mmap_vector_size_increment)
             else (None, v))
      in case r of
           Some e \<Rightarrow> (Some e, v1)
         | None \<Rightarrow> (None, v1\<lparr>m_size := new_size\<rparr>))"

definition push_back ::
  "'a platform \<Rightarrow> 'a mmap_vector_base \<Rightarrow> 'a \<Rightarrow> error option \<times> 'a mmap_vector_base" where
  "push_back P v x =
     (let (r, v1) = resize P v (size_t_add (m_size v) 1)
      in case r of
           Some e \<Rightarrow> (Some e, v1)
         | None \<Rightarrow>
            (let i = size_t_sub (m_size v1) 1
             in if capacity v1 \<le> i then (Some Undefined_behaviour, v1)
                else (None, v1\<lparr>m_mapping := (m_mapping v1)[i := x]\<rparr>)))"

text \<open>
  The two constructors. A constructor that raises leaves no object, so the result is
  an error or a vector. The members are initialised first (the mapping may fail),
  then the body runs.
\<close>

definition mmap_vector_base_anon :: "'a platform \<Rightarrow> nat \<Rightarrow> error + 'a mmap_vector_base" where
  "mmap_vector_base_anon P cap =
     (case mapping_anon P cap of
        Inl e \<Rightarrow> Inl e
      | Inr cells \<Rightarrow>
         (case std_fill cells 0 cap (empty_value P) of
            Inl e \<Rightarrow> Inl e
          | Inr cells' \<Rightarrow> Inr \<lparr>m_size = 0, m_mapping = cells'\<rparr>))"

definition mmap_vector_base_fd ::
  "'a platform \<Rightarrow> 'a list \<Rightarrow> nat \<Rightarrow> nat \<Rightarrow> error + 'a mmap_vector_base" where
  "mmap_vector_base_fd P file cap sz =
     (case mapping_file P file cap of
        Inl e \<Rightarrow> Inl e
      | Inr cells \<Rightarrow>
         if \<not> sz \<le> cap then Inl Assertion_failed
         else
          (case std_fill cells sz cap (empty_value P) of
             Inl e \<Rightarrow> Inl e
           | Inr cells' \<Rightarrow>
              (case shrink_to_fit P \<lparr>m_size = sz, m_mapping = cells'\<rparr> of
                 (Some e, _) \<Rightarrow> Inl e
               | (None, v) \<Rightarrow> Inr v)))"

text \<open>
  Modelled from the spec: \<open>close()\<close> unmaps through \<open>TypedMemoryMapping<T>::unmap\<close>,
  which is not among the sources. For a file-backed vector the mapping is shared with
  the file, so what the file holds afterwards is the cells of the mapping followed by
  whatever the file held beyond them. \<open>file\<close> is the file as the constructor left it.
\<close>

definition close_fd :: "'a list \<Rightarrow> 'a mmap_vector_base \<Rightarrow> 'a list" where
  "close_fd file v = m_mapping v @ drop (capacity v) file"

section \<open>Sequences of public operations\<close>

text \<open>
  A caller that applies public operations one after the other and catches the
  exceptions they raise: after an exception the vector is as the operation left it.
  After undefined behaviour nothing is known, and the run has no result.
\<close>

datatype 'a operation =
  Push_back 'a | Reserve nat | Resize nat | Clear | Shrink_to_fit | At nat

fun step ::
  "'a platform \<Rightarrow> 'a mmap_vector_base \<Rightarrow> 'a operation \<Rightarrow> error option \<times> 'a mmap_vector_base" where
  "step P v (Push_back x) = push_back P v x"
| "step P v (Reserve n) = reserve P v n"
| "step P v (Resize n) = resize P v n"
| "step P v Clear = (None, clear v)"
| "step P v Shrink_to_fit = shrink_to_fit P v"
| "step P v (At n) = (case at v n of Inl e \<Rightarrow> (Some e, v) | Inr x \<Rightarrow> (None, v))"

fun run :: "'a platform \<Rightarrow> 'a mmap_vector_base \<Rightarrow> 'a operation list \<Rightarrow> 'a mmap_vector_base option" where
  "run P v [] = Some v"
| "run P v (a # ops) =
     (let (r, v') = step P v a
      in if r = Some Undefined_behaviour then None else run P v' ops)"

text \<open>
  An operation whose size arithmetic stays below \<open>2 ^ 64\<close>: \<open>resize(n)\<close> computes
  \<open>n + mmap_vector_size_increment\<close>.
\<close>

fun fits :: "'a operation \<Rightarrow> bool" where
  "fits (Resize n) = (n + mmap_vector_size_increment < 2 ^ 64)"
| "fits _ = True"

text \<open>An operation that does not lower the size of the vector it is applied to.\<close>

fun keeps_size :: "'a mmap_vector_base \<Rightarrow> 'a operation \<Rightarrow> bool" where
  "keeps_size v (Resize n) = (m_size v \<le> n)"
| "keeps_size v Clear = (m_size v = 0)"
| "keeps_size v _ = True"

fun never_lowers :: "'a platform \<Rightarrow> 'a mmap_vector_base \<Rightarrow> 'a operation list \<Rightarrow> bool" where
  "never_lowers P v [] = True"
| "never_lowers P v (a # ops) = (keeps_size v a \<and> never_lowers P (snd (step P v a)) ops)"

text \<open>
  The sizes a system can hold: no mapping comes within
  \<open>mmap_vector_size_increment\<close> elements of \<open>2 ^ 64\<close>.
\<close>

definition addressable :: "'a platform \<Rightarrow> bool" where
  "addressable P \<longleftrightarrow> mappable P + mmap_vector_size_increment + 1 < 2 ^ 64"

definition tail_is_empty :: "'a platform \<Rightarrow> 'a mmap_vector_base \<Rightarrow> bool" where
  "tail_is_empty P v \<longleftrightarrow> (\<forall>x\<in>set (drop (m_size v) (m_mapping v)). x = empty_value P)"

definition vector_inv :: "'a platform \<Rightarrow> 'a mmap_vector_base \<Rightarrow> bool" where
  "vector_inv P v \<longleftrightarrow> m_size v \<le> capacity v \<and> capacity v \<le> mappable P"

text \<open>
  A platform for the examples: elements are 64-bit unsigned numbers, the empty value
  is the largest of them, and the system maps up to \<open>2 ^ 32\<close> elements.
\<close>

definition uint64_platform :: "nat platform" where
  "uint64_platform =
     \<lparr>empty_value = 2 ^ 64 - 1, mappable = 2 ^ 32, unwritten = (\<lambda>i. 170), zero_filled = 0\<rparr>"

section \<open>Reopening a file-backed vector\<close>

text \<open>\<open>push_back\<close> of each element of a list in turn; the first error ends it.\<close>

fun push_back_all ::
  "'a platform \<Rightarrow> 'a mmap_vector_base \<Rightarrow> 'a list \<Rightarrow> error option \<times> 'a mmap_vector_base" where
  "push_back_all P v [] = (None, v)"
| "push_back_all P v (x # xs) =
     (case push_back P v x of
        (Some e, v') \<Rightarrow> (Some e, v')
      | (None, v') \<Rightarrow> push_back_all P v' xs)"

text \<open>
  A vector is constructed on a file with capacity \<open>cap\<close> and the default size 0, the
  values \<open>xs\<close> are appended, the vector is closed, and a second vector is constructed
  on the file with the same capacity and the size \<open>sz\<close>.
\<close>

definition reopened ::
  "'a platform \<Rightarrow> 'a list \<Rightarrow> nat \<Rightarrow> 'a list \<Rightarrow> nat \<Rightarrow> error + 'a mmap_vector_base" where
  "reopened P file cap xs sz =
     (case mmap_vector_base_fd P file cap 0 of
        Inl e \<Rightarrow> Inl e
      | Inr v \<Rightarrow>
         (case push_back_all P v xs of
            (Some e, v') \<Rightarrow> Inl e
          | (None, v') \<Rightarrow> mmap_vector_base_fd P (close_fd (grow_file P cap file) v') cap sz))"

section \<open>The mapping primitive: \<open>remap\<close>\<close>

text \<open>
  Modelled from the spec: \<open>typed_mmap<T>::remap(base, old_n, new_n)\<close>
  (\<open>osmium/index/detail/typed_mmap.hpp\<close>) is not among the sources, only its test is.
  The region is the list of its \<open>old_n\<close> elements. Where the platform supports
  in-place extension, the region grows (or shrinks) without copying; added elements
  hold unspecified content. A request for zero elements, or for more than the system
  can map, is a resource error.
\<close>

definition remap_in_place :: "'a platform \<Rightarrow> 'a list \<Rightarrow> nat \<Rightarrow> error + 'a list" where
  "remap_in_place P region new_n =
     (if new_n = 0 \<or> mappable P < new_n then Inl Resource_error
      else Inr (take new_n region @ map (unwritten P) [length region..<new_n]))"

text \<open>
  Modelled from the spec: the other strategy of \<open>remap\<close>, for platforms that cannot
  extend a mapping in place: map a fresh region of \<open>new_n\<close> elements and copy
  \<open>min old_n new_n\<close> elements into it before the old region is discarded.
\<close>

definition copy_n :: "'a list \<Rightarrow> nat \<Rightarrow> 'a list \<Rightarrow> 'a list" where
  "copy_n src n dst = take n src @ drop n dst"

definition remap_copy :: "'a platform \<Rightarrow> 'a list \<Rightarrow> nat \<Rightarrow> error + 'a list" where
  "remap_copy P region new_n =
     (case mapping_anon P new_n of
        Inl e \<Rightarrow> Inl e
      | Inr fresh \<Rightarrow> Inr (copy_n region (min (length region) new_n) fresh))"

section \<open>\<open>StringStore\<close> and \<open>StringTable\<close>\<close>

text \<open>
  A C string is the list of its characters before the terminating \<open>NUL\<close>. A chunk is
  a \<open>std::string\<close>: the list of the characters stored in it, terminators included. Its
  capacity is what \<open>reserve(m_chunk_size)\<close> asked for.
\<close>

definition NUL :: char where
  "NUL = CHR 0x00"

record StringStore =
  m_chunk_size :: nat
  m_chunks :: "string list"

text \<open>\<open>m_chunks.push_front(std::string())\<close>: the front of the list is its head.\<close>

definition add_chunk :: "StringStore \<Rightarrow> StringStore" where
  "add_chunk st = st\<lparr>m_chunks := [] # m_chunks st\<rparr>"

definition StringStore_new :: "nat \<Rightarrow> StringStore" where
  "StringStore_new chunk_size = add_chunk \<lparr>m_chunk_size = chunk_size, m_chunks = []\<rparr>"

text \<open>The C string that the pointer \<open>chunk.c_str() + pos\<close> points at.\<close>

definition c_str_at :: "string \<Rightarrow> nat \<Rightarrow> string" where
  "c_str_at chunk pos = takeWhile (\<lambda>c. c \<noteq> NUL) (drop pos chunk)"

text \<open>
  \<open>StringStore::add\<close> returns the pointer to the copy; the model returns the store as
  it is afterwards and the C string at that pointer. \<open>m_chunks.front()\<close> of an empty
  list is undefined.
\<close>

definition StringStore_add :: "StringStore \<Rightarrow> string \<Rightarrow> error + StringStore \<times> string" where
  "StringStore_add st string =
     (let len = length string + 1 in
      if \<not> len \<le> m_chunk_size st then Inl Assertion_failed
      else if m_chunks st = [] then Inl Undefined_behaviour
      else
       (let chunk_len = length (hd (m_chunks st));
            full = (m_chunk_size st < chunk_len + len);
            st1 = (if full then add_chunk st else st);
            chunk_len1 = (if full then 0 else chunk_len);
            front = hd (m_chunks st1) @ string @ [NUL]
        in Inr (st1\<lparr>m_chunks := front # tl (m_chunks st1)\<rparr>, c_str_at front chunk_len1)))"

text \<open>
  \<open>m_index\<close> is a \<open>std::map\<close> ordered by \<open>strcmp\<close>: its keys are C strings compared by
  content. \<open>m_size\<close> is a \<open>uint32_t\<close> (the field is \<open>m_size32\<close> here); incrementing it
  wraps around at \<open>2 ^ 32\<close>.
\<close>

record StringTable =
  m_strings :: StringStore
  m_index :: "string \<rightharpoonup> nat"
  m_size32 :: nat

definition StringTable_new :: "error + StringTable" where
  "StringTable_new =
     (case StringStore_add (StringStore_new (1024 * 1024)) [] of
        Inl e \<Rightarrow> Inl e
      | Inr (st, cs) \<Rightarrow> Inr \<lparr>m_strings = st, m_index = Map.empty, m_size32 = 0\<rparr>)"

text \<open>\<open>StringTable::size\<close>.\<close>

definition size_st :: "StringTable \<Rightarrow> nat" where
  "size_st t = (m_size32 t + 1) mod 2 ^ 32"

text \<open>
  \<open>StringTable::add\<close>. \<open>max_entries\<close> is \<open>max_uncompressed_blob_size\<close>, declared in
  \<open>osmium/io/detail/pbf.hpp\<close>, which is not among the sources: it is a parameter. The
  result is the table as it is afterwards and the index returned or the error raised:
  \<open>pbf_error\<close> is thrown after the string has been stored and indexed.
\<close>

definition StringTable_add :: "nat \<Rightarrow> StringTable \<Rightarrow> string \<Rightarrow> StringTable \<times> (error + nat)" where
  "StringTable_add max_entries t s =
     (case m_index t s of
        Some i \<Rightarrow> (t, Inr (i mod 2 ^ 32))
      | None \<Rightarrow>
         (case StringStore_add (m_strings t) s of
            Inl e \<Rightarrow> (t, Inl e)
          | Inr (st, cs) \<Rightarrow>
             (let n = (m_size32 t + 1) mod 2 ^ 32;
                  t' = \<lparr>m_strings = st, m_index = (m_index t)(cs \<mapsto> n), m_size32 = n\<rparr>
              in if max_entries < n then (t', Inl Pbf_error) else (t', Inr n))))"

text \<open>\<open>add\<close> of each string of a list in turn; the first error ends it.\<close>

fun add_all :: "nat \<Rightarrow> StringTable \<Rightarrow> string list \<Rightarrow> StringTable \<times> (error + nat list)" where
  "add_all max_entries t [] = (t, Inr [])"
| "add_all max_entries t (s # ss) =
     (case StringTable_add max_entries t s of
        (t', Inl e) \<Rightarrow> (t', Inl e)
      | (t', Inr i) \<Rightarrow>
         (case add_all max_entries t' ss of
            (t'', Inl e) \<Rightarrow> (t'', Inl e)
          | (t'', Inr is) \<Rightarrow> (t'', Inr (i # is))))"

text \<open>
  The index a string of \<open>ss\<close> is expected to have: one more than the number of
  distinct strings before its first occurrence.
\<close>

definition first_index :: "string list \<Rightarrow> string \<Rightarrow> nat" where
  "first_index ss s = card (set (takeWhile (\<lambda>x. x \<noteq> s) ss)) + 1"

text \<open>What holds of a table after the strings \<open>pre\<close> have been added to a new one.\<close>

definition store_ok :: "StringStore \<Rightarrow> bool" where
  "store_ok st \<longleftrightarrow> m_chunks st \<noteq> [] \<and> m_chunk_size st = 1024 * 1024"

definition table_inv :: "StringTable \<Rightarrow> string list \<Rightarrow> bool" where
  "table_inv t pre \<longleftrightarrow>
     m_size32 t = card (set pre) \<and> store_ok (m_strings t) \<and>
     (\<forall>s. m_index t s = (if s \<in> set pre then Some (first_index pre s) else None))"

section \<open>Writes and what \<open>at\<close> returns\<close>

text \<open>
  \<open>v[n] = x\<close> through the non-\<open>const\<close> \<open>operator[]\<close>: it asserts \<open>n < m_size\<close> and
  hands out a reference to \<open>data()[n]\<close>, which the assignment stores into.
\<close>

definition store ::
  "'a mmap_vector_base \<Rightarrow> nat \<Rightarrow> 'a \<Rightarrow> error option \<times> 'a mmap_vector_base" where
  "store v n x =
     (if \<not> n < m_size v then (Some Assertion_failed, v)
      else if capacity v \<le> n then (Some Undefined_behaviour, v)
      else (None, v\<lparr>m_mapping := (m_mapping v)[n := x]\<rparr>))"

text \<open>
  What a caller does to a vector: it calls a public operation or assigns through
  \<open>operator[]\<close>.
\<close>

datatype 'a action = Call "'a operation" | Assign nat 'a

fun act ::
  "'a platform \<Rightarrow> 'a mmap_vector_base \<Rightarrow> 'a action \<Rightarrow> error option \<times> 'a mmap_vector_base" where
  "act P v (Call a) = step P v a"
| "act P v (Assign n x) = store v n x"

fun fits_action :: "'a action \<Rightarrow> bool" where
  "fits_action (Call a) = fits a"
| "fits_action (Assign n x) = True"

text \<open>
  The record of the writes: \<open>w i\<close> is the last value written at index \<open>i\<close>, if any.
  \<open>push_back(x)\<close> writes \<open>x\<close> at the index \<open>size()\<close>, an assignment \<open>v[n] = x\<close> writes
  \<open>x\<close> at \<open>n\<close>, and no other operation writes a value.
\<close>

fun last_written :: "'a mmap_vector_base \<Rightarrow> (nat \<rightharpoonup> 'a) \<Rightarrow> 'a action \<Rightarrow> (nat \<rightharpoonup> 'a)" where
  "last_written v w (Call (Push_back x)) = w(m_size v \<mapsto> x)"
| "last_written v w (Assign n x) = w(n \<mapsto> x)"
| "last_written v w (Call a) = w"

text \<open>
  The vector and the record of the writes after a list of actions. An action that
  raises an exception writes nothing; a failed assertion or undefined behaviour ends
  the program.
\<close>

fun history ::
  "'a platform \<Rightarrow> 'a mmap_vector_base \<Rightarrow> (nat \<rightharpoonup> 'a) \<Rightarrow> 'a action list \<Rightarrow>
   ('a mmap_vector_base \<times> (nat \<rightharpoonup> 'a)) option" where
  "history P v w [] = Some (v, w)"
| "history P v w (a # acts) =
     (let (r, v') = act P v a
      in if r = Some Undefined_behaviour \<or> r = Some Assertion_failed then None
         else history P v' (if r = None then last_written v w a else w) acts)"

text \<open>The last value written at an index, or the empty value if none was.\<close>

definition written_or_empty :: "'a platform \<Rightarrow> (nat \<rightharpoonup> 'a) \<Rightarrow> nat \<Rightarrow> 'a" where
  "written_or_empty P w i = (case w i of Some x \<Rightarrow> x | None \<Rightarrow> empty_value P)"

text \<open>Every slot of the mapping holds the last value written there, or the empty value.\<close>

definition holds_written :: "'a platform \<Rightarrow> 'a mmap_vector_base \<Rightarrow> (nat \<rightharpoonup> 'a) \<Rightarrow> bool" where
  "holds_written P v w \<longleftrightarrow>
     vector_inv P v \<and>
     (\<forall>j. j < capacity v \<longrightarrow> m_mapping v ! j = written_or_empty P w j) \<and>
     (\<forall>j. capacity v \<le> j \<longrightarrow> w j = None)"

section \<open>The loops\<close>

declare shrink_to_fit.simps [simp del] fill_loop.simps [simp del]

lemma fill_loop_length: "length (fill_loop cells frst lst x) = length cells"
  by (induction cells frst lst x rule: fill_loop.induct) (subst fill_loop.simps, simp)

lemma fill_loop_eq:
  "frst \<le> lst \<Longrightarrow> lst \<le> length cells \<Longrightarrow>
   fill_loop cells frst lst x = take frst cells @ replicate (lst - frst) x @ drop lst cells"
proof (induction cells frst lst x rule: fill_loop.induct)
  case (1 cells frst lst x)
  show ?case
  proof (cases "frst < lst")
    case True
    have "fill_loop cells frst lst x = fill_loop (cells[frst := x]) (Suc frst) lst x"
      using True by (subst fill_loop.simps) simp
    also have "\<dots> = take (Suc frst) (cells[frst := x]) @ replicate (lst - Suc frst) x @ drop lst (cells[frst := x])"
      using True "1.prems" by (intro "1.IH") auto
    also have "take (Suc frst) (cells[frst := x]) = take frst cells @ [x]"
      using True "1.prems" by (simp add: take_Suc_conv_app_nth)
    also have "drop lst (cells[frst := x]) = drop lst cells"
      using True by simp
    finally show ?thesis using True
      by (simp add: replicate_append_same Suc_diff_Suc flip: replicate_Suc)
  next
    case False
    with "1.prems" have "frst = lst" by simp
    then show ?thesis by (subst fill_loop.simps) simp
  qed
qed

lemma std_fill_eq:
  "frst \<le> lst \<Longrightarrow> lst \<le> length cells \<Longrightarrow>
   std_fill cells frst lst x = Inr (take frst cells @ replicate (lst - frst) x @ drop lst cells)"
  by (simp add: std_fill_def fill_loop_eq)

lemma shrink_to_fit_mapping: "m_mapping (snd (shrink_to_fit P v)) = m_mapping v"
  by (induction P v rule: shrink_to_fit.induct) (subst shrink_to_fit.simps, simp)

lemma shrink_to_fit_char:
  "m_size v \<le> capacity v \<Longrightarrow>
   \<exists>r. shrink_to_fit P v = (None, v\<lparr>m_size := r\<rparr>) \<and> r \<le> m_size v \<and>
       (\<forall>i. r \<le> i \<and> i < m_size v \<longrightarrow> m_mapping v ! i = empty_value P) \<and>
       (r = 0 \<or> m_mapping v ! (r - 1) \<noteq> empty_value P)"
proof (induction P v rule: shrink_to_fit.induct)
  case (1 P v)
  show ?case
  proof (cases "0 < m_size v \<and> m_mapping v ! (m_size v - 1) = empty_value P")
    case True
    let ?w = "v\<lparr>m_size := m_size v - 1\<rparr>"
    have lt: "\<not> capacity v \<le> m_size v - 1" using True "1.prems" by linarith
    have wle: "m_size ?w \<le> capacity ?w" using "1.prems" by (simp add: capacity_def)
    from True have pos: "0 < m_size v" and cell: "m_mapping v ! (m_size v - 1) = empty_value P"
      by simp_all
    from "1.IH" [OF pos lt cell wle] obtain r where
      r: "shrink_to_fit P ?w = (None, ?w\<lparr>m_size := r\<rparr>)" "r \<le> m_size ?w"
         "\<forall>i. r \<le> i \<and> i < m_size ?w \<longrightarrow> m_mapping ?w ! i = empty_value P"
         "r = 0 \<or> m_mapping ?w ! (r - 1) \<noteq> empty_value P"
      by (elim exE conjE)
    have "shrink_to_fit P v = shrink_to_fit P ?w"
      using True lt by (subst shrink_to_fit.simps) simp
    moreover have "\<forall>i. r \<le> i \<and> i < m_size v \<longrightarrow> m_mapping v ! i = empty_value P"
    proof (intro allI impI)
      fix i assume i: "r \<le> i \<and> i < m_size v"
      show "m_mapping v ! i = empty_value P"
      proof (cases "i = m_size v - 1")
        case True
        then show ?thesis using \<open>0 < m_size v \<and> _\<close> by simp
      next
        case False
        with i have "i < m_size ?w" by (simp, linarith)
        with r(3) i show ?thesis by simp
      qed
    qed
    ultimately show ?thesis using r by (intro exI [of _ r]) simp
  next
    case False
    then have "shrink_to_fit P v = (None, v)"
      using "1.prems" by (subst shrink_to_fit.simps) auto
    then show ?thesis using False by (intro exI [of _ "m_size v"]) auto
  qed
qed

lemma shrink_to_fit_replicate:
  assumes "\<forall>x\<in>set xs. x \<noteq> empty_value P"
  shows "shrink_to_fit P \<lparr>m_size = length xs + k, m_mapping = xs @ replicate k (empty_value P) @ rest\<rparr>
       = (None, \<lparr>m_size = length xs, m_mapping = xs @ replicate k (empty_value P) @ rest\<rparr>)"
proof (induction k arbitrary: rest)
  case 0
  show ?case
  proof (cases xs rule: rev_cases)
    case Nil
    then show ?thesis by (subst shrink_to_fit.simps) simp
  next
    case (snoc ys y)
    with assms have "y \<noteq> empty_value P" by simp
    with snoc show ?thesis
      by (subst shrink_to_fit.simps) (simp add: capacity_def nth_append)
  qed
next
  case (Suc k)
  let ?e = "empty_value P"
  let ?M = "xs @ replicate k ?e @ (?e # rest)"
  have eq: "xs @ replicate (Suc k) ?e @ rest = ?M"
    by (simp add: replicate_app_Cons_same)
  have cell: "?M ! (length xs + k) = ?e"
    by (simp add: nth_append)
  have step: "shrink_to_fit P \<lparr>m_size = length xs + Suc k, m_mapping = ?M\<rparr>
      = shrink_to_fit P \<lparr>m_size = length xs + k, m_mapping = ?M\<rparr>"
    using cell by (subst shrink_to_fit.simps) (simp add: capacity_def)
  show ?case
    by (simp only: eq) (simp only: step Suc)
qed

section \<open>What the members compute\<close>

lemma size_t_add_small: "a + b < 2 ^ 64 \<Longrightarrow> size_t_add a b = a + b"
  by (simp add: size_t_add_def)

lemma size_t_sub_one:
  assumes "0 < a" "a < 2 ^ 64"
  shows "size_t_sub a (Suc 0) = a - 1"
proof -
  from assms obtain b where a: "a = Suc b" by (cases a) auto
  have m: "Suc 0 mod 2 ^ 64 = Suc 0" by simp
  have e: "Suc b + 2 ^ 64 - Suc 0 = b + 2 ^ 64" by simp
  have r: "(b + 2 ^ 64) mod 2 ^ 64 = b"
    using assms a by (simp only: mod_add_self2) simp
  show ?thesis
    by (simp only: size_t_sub_def a m e r diff_Suc_1 One_nat_def)
qed

lemma mapping_resize_grow:
  "length cells < n \<Longrightarrow>
   mapping_resize P cells n =
     (if mappable P < n then (Some Resource_error, cells)
      else (None, cells @ map (unwritten P) [length cells..<n]))"
  by (simp add: mapping_resize_def)

lemma reserve_eq:
  "reserve P v n =
     (if capacity v < n then
        if mappable P < n then (Some Resource_error, v)
        else (None, v\<lparr>m_mapping := m_mapping v @ replicate (n - capacity v) (empty_value P)\<rparr>)
      else (None, v))"
proof (cases "capacity v < n")
  case False
  then show ?thesis by (simp add: reserve_def)
next
  case True
  show ?thesis
  proof (cases "mappable P < n")
    case True
    with \<open>capacity v < n\<close> show ?thesis
      by (simp add: reserve_def capacity_def mapping_resize_grow)
  next
    case False
    let ?cells = "m_mapping v @ map (unwritten P) [capacity v..<n]"
    have "std_fill ?cells (capacity v) n (empty_value P)
        = Inr (m_mapping v @ replicate (n - capacity v) (empty_value P))"
      using \<open>capacity v < n\<close> by (subst std_fill_eq) (simp_all add: capacity_def)
    with False \<open>capacity v < n\<close> show ?thesis
      by (simp add: reserve_def mapping_resize_grow capacity_def)
  qed
qed

lemma resize_eq:
  "resize P v n =
     (if capacity v < n then
        (let n' = size_t_add n mmap_vector_size_increment in
         if capacity v < n' then
           if mappable P < n' then (Some Resource_error, v)
           else (None, \<lparr>m_size = n, m_mapping = m_mapping v @ replicate (n' - capacity v) (empty_value P)\<rparr>)
         else (None, v\<lparr>m_size := n\<rparr>))
      else (None, v\<lparr>m_size := n\<rparr>))"
  by (simp add: resize_def reserve_eq Let_def)

lemma resize_no_wrap:
  assumes "n + mmap_vector_size_increment < 2 ^ 64"
  shows "resize P v n =
     (if capacity v < n then
         if mappable P < n + mmap_vector_size_increment then (Some Resource_error, v)
         else (None, \<lparr>m_size = n, m_mapping = m_mapping v @ replicate (n + mmap_vector_size_increment - capacity v) (empty_value P)\<rparr>)
      else (None, v\<lparr>m_size := n\<rparr>))"
  using assms by (simp add: resize_eq size_t_add_small Let_def)

lemma capacity_simps [simp]:
  "capacity \<lparr>m_size = s, m_mapping = M\<rparr> = length M"
  "capacity (v\<lparr>m_size := s\<rparr>) = capacity v"
  "capacity (v\<lparr>m_mapping := M\<rparr>) = length M"
  by (simp_all add: capacity_def)

lemma push_back_eq:
  assumes "m_size v \<le> capacity v" "capacity v + mmap_vector_size_increment + 1 < 2 ^ 64"
  shows "push_back P v x =
     (if m_size v < capacity v then (None, \<lparr>m_size = m_size v + 1, m_mapping = (m_mapping v)[m_size v := x]\<rparr>)
      else if mappable P < m_size v + 1 + mmap_vector_size_increment then (Some Resource_error, v)
      else (None, \<lparr>m_size = m_size v + 1,
                   m_mapping = (m_mapping v @ replicate (mmap_vector_size_increment + 1) (empty_value P))[m_size v := x]\<rparr>))"
proof -
  let ?s = "m_size v"
  have s1: "size_t_add ?s 1 = Suc ?s"
    using assms by (simp add: size_t_add_small)
  have nw: "Suc ?s + mmap_vector_size_increment < 2 ^ 64"
    using assms by simp
  have sub: "size_t_sub (Suc ?s) 1 = ?s"
    using size_t_sub_one [of "Suc ?s"] assms by simp
  note rz = resize_no_wrap [OF nw, of P v]
  show ?thesis
  proof (cases "?s < capacity v")
    case True
    then have "resize P v (size_t_add ?s 1) = (None, v\<lparr>m_size := Suc ?s\<rparr>)"
      by (simp only: s1 rz) simp
    then show ?thesis
      using True by (simp add: push_back_def sub Let_def del: One_nat_def)
  next
    case False
    with assms have eq: "capacity v = ?s" by simp
    then have len: "length (m_mapping v) = ?s" by (simp add: capacity_def)
    show ?thesis
    proof (cases "mappable P < ?s + 1 + mmap_vector_size_increment")
      case True
      then have "resize P v (size_t_add ?s 1) = (Some Resource_error, v)"
        by (simp only: s1 rz) (simp add: eq)
      then show ?thesis
        using True False by (simp add: push_back_def del: One_nat_def)
    next
      case nofail: False
      then have "resize P v (size_t_add ?s 1) =
         (None, \<lparr>m_size = Suc ?s, m_mapping = m_mapping v @ replicate (mmap_vector_size_increment + 1) (empty_value P)\<rparr>)"
        by (simp only: s1 rz) (simp add: eq)
      then show ?thesis
        using nofail False by (simp add: push_back_def sub Let_def len del: One_nat_def)
    qed
  qed
qed

section \<open>Invariants\<close>

lemma tail_is_empty_nth:
  "tail_is_empty P v \<longleftrightarrow> (\<forall>i. m_size v \<le> i \<and> i < capacity v \<longrightarrow> m_mapping v ! i = empty_value P)"
proof
  assume t: "tail_is_empty P v"
  show "\<forall>i. m_size v \<le> i \<and> i < capacity v \<longrightarrow> m_mapping v ! i = empty_value P"
  proof (intro allI impI)
    fix i assume i: "m_size v \<le> i \<and> i < capacity v"
    then have "m_mapping v ! i = drop (m_size v) (m_mapping v) ! (i - m_size v)"
      by (simp add: capacity_def)
    moreover have "i - m_size v < length (drop (m_size v) (m_mapping v))"
      using i by (simp add: capacity_def) linarith
    ultimately have "m_mapping v ! i \<in> set (drop (m_size v) (m_mapping v))"
      by (metis nth_mem)
    with t show "m_mapping v ! i = empty_value P" by (simp add: tail_is_empty_def)
  qed
next
  assume n: "\<forall>i. m_size v \<le> i \<and> i < capacity v \<longrightarrow> m_mapping v ! i = empty_value P"
  show "tail_is_empty P v"
    unfolding tail_is_empty_def
  proof
    fix x assume "x \<in> set (drop (m_size v) (m_mapping v))"
    then obtain j where j: "j < length (drop (m_size v) (m_mapping v))"
        "x = drop (m_size v) (m_mapping v) ! j"
      by (auto simp: in_set_conv_nth)
    then have "x = m_mapping v ! (m_size v + j)" by simp
    moreover from j have "m_size v + j < capacity v" by (simp add: capacity_def) 
    ultimately show "x = empty_value P" using n by simp
  qed
qed

lemma anon_constructed:
  assumes "mmap_vector_base_anon P cap = Inr v"
  shows "v = \<lparr>m_size = 0, m_mapping = replicate cap (empty_value P)\<rparr> \<and> 0 < cap \<and> cap \<le> mappable P"
proof -
  from assms have ok: "\<not> (cap = 0 \<or> mappable P < cap)"
    by (auto simp: mmap_vector_base_anon_def mapping_anon_def split: if_splits)
  then have "std_fill (map (unwritten P) [0..<cap]) 0 cap (empty_value P) = Inr (replicate cap (empty_value P))"
    by (subst std_fill_eq) simp_all
  with assms ok show ?thesis
    by (auto simp: mmap_vector_base_anon_def mapping_anon_def)
qed

lemma fd_constructed:
  assumes "mmap_vector_base_fd P file cap sz = Inr v"
  shows "\<exists>r. v = \<lparr>m_size = r, m_mapping = take sz (take cap (grow_file P cap file)) @ replicate (cap - sz) (empty_value P)\<rparr>
           \<and> r \<le> sz \<and> sz \<le> cap \<and> 0 < cap \<and> cap \<le> mappable P
           \<and> (r = 0 \<or> m_mapping v ! (r - 1) \<noteq> empty_value P)
           \<and> (\<forall>i. r \<le> i \<and> i < sz \<longrightarrow> m_mapping v ! i = empty_value P)"
proof -
  let ?cells = "take cap (grow_file P cap file)"
  let ?cells' = "take sz ?cells @ replicate (cap - sz) (empty_value P)"
  let ?w = "\<lparr>m_size = sz, m_mapping = ?cells'\<rparr>"
  from assms have ok: "\<not> (cap = 0 \<or> mappable P < cap)" and le: "sz \<le> cap"
    by (auto simp: mmap_vector_base_fd_def mapping_file_def split: if_splits)
  have len: "length ?cells = cap" by (simp add: grow_file_def)
  have fill: "std_fill ?cells sz cap (empty_value P) = Inr ?cells'"
    using le len by (subst std_fill_eq) simp_all
  have "m_size ?w \<le> capacity ?w" using le len by simp
  from shrink_to_fit_char [OF this, of P] obtain r where
    r: "shrink_to_fit P ?w = (None, ?w\<lparr>m_size := r\<rparr>)" "r \<le> m_size ?w"
       "\<forall>i. r \<le> i \<and> i < m_size ?w \<longrightarrow> m_mapping ?w ! i = empty_value P"
       "r = 0 \<or> m_mapping ?w ! (r - 1) \<noteq> empty_value P"
    by (elim exE conjE)
  from assms ok le fill r(1) have "v = ?w\<lparr>m_size := r\<rparr>"
    by (simp add: mmap_vector_base_fd_def mapping_file_def)
  with r ok le show ?thesis by (intro exI [of _ r]) simp
qed


lemma anon_inv:
  "mmap_vector_base_anon P cap = Inr v \<Longrightarrow> vector_inv P v \<and> tail_is_empty P v"
  by (drule anon_constructed) (simp add: vector_inv_def tail_is_empty_def)

lemma fd_inv:
  assumes "mmap_vector_base_fd P file cap sz = Inr v"
  shows "vector_inv P v \<and> tail_is_empty P v"
proof -
  define A where "A = take sz (take cap (grow_file P cap file))"
  let ?M = "A @ replicate (cap - sz) (empty_value P)"
  from fd_constructed [OF assms] obtain r where
    v: "v = \<lparr>m_size = r, m_mapping = ?M\<rparr>" and r: "r \<le> sz" "sz \<le> cap" "cap \<le> mappable P"
    and t: "\<forall>i. r \<le> i \<and> i < sz \<longrightarrow> m_mapping v ! i = empty_value P"
    unfolding A_def by (elim exE conjE)
  have lenA: "length A = sz" using r by (simp add: A_def grow_file_def)
  have inv: "vector_inv P v" using v r lenA by (simp add: vector_inv_def)
  have "tail_is_empty P v"
    unfolding tail_is_empty_nth
  proof (intro allI impI)
    fix i assume i: "m_size v \<le> i \<and> i < capacity v"
    show "m_mapping v ! i = empty_value P"
    proof (cases "i < sz")
      case True
      with i t v show ?thesis by simp
    next
      case False
      with i v lenA r show ?thesis by (simp add: nth_append)
    qed
  qed
  with inv show ?thesis ..
qed

lemma step_inv:
  assumes "addressable P" "vector_inv P v" "fits a"
  shows "fst (step P v a) \<noteq> Some Undefined_behaviour \<and> vector_inv P (snd (step P v a))"
proof (cases a)
  case (Push_back x)
  have b: "capacity v + mmap_vector_size_increment + 1 < 2 ^ 64"
    using assms by (simp add: addressable_def vector_inv_def)
  from assms(2) have le: "m_size v \<le> capacity v" by (simp add: vector_inv_def)
  note pb = push_back_eq [OF le b, of P x]
  from assms(2) show ?thesis
    unfolding Push_back by (auto simp: pb vector_inv_def capacity_def)
next
  case (Reserve n)
  with assms(2) show ?thesis by (auto simp: reserve_eq vector_inv_def capacity_def)
next
  case (Resize n)
  with assms show ?thesis by (auto simp: resize_no_wrap vector_inv_def capacity_def)
next
  case Clear
  with assms(2) show ?thesis by (simp add: clear_def vector_inv_def)
next
  case Shrink_to_fit
  from assms(2) have "m_size v \<le> capacity v" by (simp add: vector_inv_def)
  from shrink_to_fit_char [OF this, of P] assms(2) Shrink_to_fit show ?thesis
    by (auto simp: vector_inv_def)
next
  case (At n)
  with assms(2) show ?thesis by (auto simp: at_def vector_inv_def)
qed

lemma run_inv:
  assumes "addressable P"
  shows "vector_inv P v \<Longrightarrow> \<forall>a\<in>set ops. fits a \<Longrightarrow> \<exists>w. run P v ops = Some w \<and> vector_inv P w"
proof (induction ops arbitrary: v)
  case Nil
  then show ?case by simp
next
  case (Cons a ops)
  from step_inv [OF assms Cons.prems(1), of a] Cons.prems(2)
  have s: "fst (step P v a) \<noteq> Some Undefined_behaviour" "vector_inv P (snd (step P v a))"
    by simp_all
  from Cons.IH [OF s(2)] Cons.prems(2) obtain w where
    "run P (snd (step P v a)) ops = Some w" "vector_inv P w" by auto
  with s(1) show ?case by (simp add: case_prod_unfold)
qed

lemma anon_eq:
  "mmap_vector_base_anon P cap =
     (if cap = 0 \<or> mappable P < cap then Inl Resource_error
      else Inr \<lparr>m_size = 0, m_mapping = replicate cap (empty_value P)\<rparr>)"
proof (cases "cap = 0 \<or> mappable P < cap")
  case True
  then show ?thesis by (auto simp: mmap_vector_base_anon_def mapping_anon_def)
next
  case False
  then have "std_fill (map (unwritten P) [0..<cap]) 0 cap (empty_value P) = Inr (replicate cap (empty_value P))"
    by (subst std_fill_eq) simp_all
  with False show ?thesis
    by (simp add: mmap_vector_base_anon_def mapping_anon_def)
qed

lemma uint64_platform_simps [simp]:
  "empty_value uint64_platform = 18446744073709551615"
  "mappable uint64_platform = 4294967296"
  "zero_filled uint64_platform = 0"
  "unwritten uint64_platform i = 170"
  by (simp_all add: uint64_platform_def)

lemma addressable_uint64: "addressable uint64_platform"
  by (simp add: addressable_def mmap_vector_size_increment_def)

section \<open>Claims about \<open>mmap_vector_base\<close>\<close>

text \<open>
  Where the size arithmetic does not wrap around, \<open>size() <= capacity()\<close> holds after
  construction by either constructor and after each operation of a sequence, and no
  operation of the sequence has undefined behaviour: every \<open>resize(n)\<close> of the sequence
  has \<open>n + mmap_vector_size_increment < 2 ^ 64\<close>, and the system maps no region within
  \<open>mmap_vector_size_increment\<close> elements of \<open>2 ^ 64\<close>.
\<close>

lemma size_le_capacity_without_wrap:
  assumes "addressable P"
    and "mmap_vector_base_anon P cap = Inr v0 \<or> mmap_vector_base_fd P file cap sz = Inr v0"
    and "\<forall>a\<in>set ops. fits a"
  shows "size_mv v0 \<le> capacity v0 \<and>
         (\<forall>k\<le>length ops. \<exists>v. run P v0 (take k ops) = Some v \<and> size_mv v \<le> capacity v)"
proof -
  from assms(2) have inv: "vector_inv P v0"
    using anon_inv fd_inv by blast
  have "\<exists>v. run P v0 (take k ops) = Some v \<and> size_mv v \<le> capacity v" for k
  proof -
    from assms(3) have "\<forall>a\<in>set (take k ops). fits a"
      by (meson in_set_takeD)
    from run_inv [OF assms(1) inv this] show ?thesis
      by (auto simp: vector_inv_def size_mv_def)
  qed
  with inv show ?thesis by (simp add: vector_inv_def size_mv_def)
qed

text \<open>
  C1. \<open>size() <= capacity()\<close> is to hold after every public operation, and the code
  relies on it: the constructor asserts it, \<open>resize\<close> reserves before it sets the size,
  and \<open>at\<close> reads \<open>data()[n]\<close> for every \<open>n < m_size\<close>. But \<open>resize(new_size)\<close> computes
  \<open>new_size + mmap_vector_size_increment\<close> in \<open>size_t\<close> and does not check for
  wrap-around. On a vector of capacity 4, \<open>resize(2 ^ 64 - 2 ^ 20 + 3)\<close> calls
  \<open>reserve(3)\<close>, which changes nothing, and then sets the size: the operation returns
  normally with \<open>size()\<close> above \<open>capacity()\<close>.
\<close>

theorem resize_breaks_size_le_capacity:
  "mmap_vector_base_anon uint64_platform 4 =
     Inr \<lparr>m_size = 0, m_mapping = replicate 4 (empty_value uint64_platform)\<rparr> \<and>
   run uint64_platform \<lparr>m_size = 0, m_mapping = replicate 4 (empty_value uint64_platform)\<rparr>
     [Resize (2 ^ 64 - 2 ^ 20 + 3)] =
     Some \<lparr>m_size = 2 ^ 64 - 2 ^ 20 + 3, m_mapping = replicate 4 (empty_value uint64_platform)\<rparr> \<and>
   \<not> size_mv \<lparr>m_size = 2 ^ 64 - 2 ^ 20 + 3, m_mapping = replicate 4 (empty_value uint64_platform)\<rparr>
      \<le> capacity \<lparr>m_size = 2 ^ 64 - 2 ^ 20 + 3, m_mapping = replicate 4 (empty_value uint64_platform)\<rparr>"
  by (simp add: anon_eq resize_eq size_t_add_def mmap_vector_size_increment_def size_mv_def)

text \<open>
  C3. \<open>shrink_to_fit()\<close> on a vector with \<open>size() <= capacity()\<close> raises nothing,
  leaves the mapping as it is and sets the size to the \<open>r\<close> reached by decrementing
  while the slot below the size holds the empty value: every slot in \<open>[r, size)\<close> holds
  the empty value, and \<open>r\<close> is 0 or the slot at \<open>r - 1\<close> does not. In particular, when
  the slots \<open>[0, length xs)\<close> hold values other than the empty value and the \<open>k\<close> slots
  after them hold the empty value, a size of \<open>length xs + k\<close> becomes \<open>length xs\<close>; with
  \<open>xs\<close> empty, all slots hold the empty value and the size becomes 0.
\<close>

theorem shrink_to_fit_trims:
  "(m_size v \<le> capacity v \<longrightarrow>
      (\<exists>r. shrink_to_fit P v = (None, v\<lparr>m_size := r\<rparr>) \<and> r \<le> m_size v \<and>
           (\<forall>i. r \<le> i \<and> i < m_size v \<longrightarrow> m_mapping v ! i = empty_value P) \<and>
           (r = 0 \<or> m_mapping v ! (r - 1) \<noteq> empty_value P))) \<and>
   ((\<forall>x\<in>set xs. x \<noteq> empty_value P) \<longrightarrow>
      shrink_to_fit P \<lparr>m_size = length xs + k, m_mapping = xs @ replicate k (empty_value P)\<rparr> =
        (None, \<lparr>m_size = length xs, m_mapping = xs @ replicate k (empty_value P)\<rparr>))"
proof (intro conjI impI)
  assume "m_size v \<le> capacity v"
  then show "\<exists>r. shrink_to_fit P v = (None, v\<lparr>m_size := r\<rparr>) \<and> r \<le> m_size v \<and>
           (\<forall>i. r \<le> i \<and> i < m_size v \<longrightarrow> m_mapping v ! i = empty_value P) \<and>
           (r = 0 \<or> m_mapping v ! (r - 1) \<noteq> empty_value P)"
    by (rule shrink_to_fit_char)
next
  assume "\<forall>x\<in>set xs. x \<noteq> empty_value P"
  from shrink_to_fit_replicate [OF this, of k "[]"]
  show "shrink_to_fit P \<lparr>m_size = length xs + k, m_mapping = xs @ replicate k (empty_value P)\<rparr> =
        (None, \<lparr>m_size = length xs, m_mapping = xs @ replicate k (empty_value P)\<rparr>)"
    by simp
qed

theorem shrink_to_fit_trims_witness:
  "shrink_to_fit uint64_platform
     \<lparr>m_size = 100, m_mapping = [11, 12, 13, 14, 15] @ replicate 95 (empty_value uint64_platform)\<rparr> =
     (None, \<lparr>m_size = 5, m_mapping = [11, 12, 13, 14, 15] @ replicate 95 (empty_value uint64_platform)\<rparr>) \<and>
   shrink_to_fit uint64_platform
     \<lparr>m_size = 100, m_mapping = replicate 100 (empty_value uint64_platform)\<rparr> =
     (None, \<lparr>m_size = 0, m_mapping = replicate 100 (empty_value uint64_platform)\<rparr>) \<and>
   (\<exists>r. shrink_to_fit uint64_platform \<lparr>m_size = 2, m_mapping = [11, 18446744073709551615, 12]\<rparr> =
        (None, \<lparr>m_size = r, m_mapping = [11, 18446744073709551615, 12]\<rparr>) \<and> r \<le> 2)"
proof -
  have a: "\<forall>x\<in>set [11, 12, 13, 14, 15 :: nat]. x \<noteq> empty_value uint64_platform" by simp
  have b: "\<forall>x\<in>set ([] :: nat list). x \<noteq> empty_value uint64_platform" by simp
  have c: "m_size \<lparr>m_size = 2, m_mapping = [11, 18446744073709551615, 12 :: nat]\<rparr>
           \<le> capacity \<lparr>m_size = 2, m_mapping = [11, 18446744073709551615, 12 :: nat]\<rparr>" by simp
  from shrink_to_fit_trims [of _ uint64_platform "[11, 12, 13, 14, 15]" 95, THEN conjunct2, THEN mp, OF a]
       shrink_to_fit_trims [of _ uint64_platform "[]" 100, THEN conjunct2, THEN mp, OF b]
       shrink_to_fit_trims [of "\<lparr>m_size = 2, m_mapping = [11, 18446744073709551615, 12]\<rparr>" uint64_platform,
          THEN conjunct1, THEN mp, OF c]
  show ?thesis by auto
qed

text \<open>
  C4. \<open>push_back(x)\<close> on a vector of size \<open>s\<close> and capacity \<open>c\<close> with \<open>s <= c\<close>: when
  \<open>s + 1 > c\<close> the capacity becomes \<open>s + 1 + mmap_vector_size_increment\<close>, otherwise it
  stays; the size becomes \<open>s + 1\<close>, the element at index \<open>s\<close> is \<open>x\<close>, and the elements
  at the indices below \<open>s\<close> are unchanged. The capacity is one a system can hold, and
  the mapping grows when it has to (what happens when it does not is C8).
\<close>

theorem push_back_appends:
  assumes "m_size v \<le> capacity v"
    and "capacity v + mmap_vector_size_increment + 1 < 2 ^ 64"
    and "capacity v < m_size v + 1 \<longrightarrow> m_size v + 1 + mmap_vector_size_increment \<le> mappable P"
  shows "\<exists>v'. push_back P v x = (None, v') \<and>
           capacity v' = (if capacity v < m_size v + 1
                          then m_size v + 1 + mmap_vector_size_increment else capacity v) \<and>
           size_mv v' = m_size v + 1 \<and>
           at v' (m_size v) = Inr x \<and>
           (\<forall>i<m_size v. m_mapping v' ! i = m_mapping v ! i \<and> at v' i = at v i)"
proof (cases "m_size v < capacity v")
  case True
  let ?v' = "\<lparr>m_size = m_size v + 1, m_mapping = (m_mapping v)[m_size v := x]\<rparr>"
  from True have "push_back P v x = (None, ?v')"
    by (simp add: push_back_eq [OF assms(1,2)])
  moreover from True have "at ?v' (m_size v) = Inr x"
    by (simp add: at_def capacity_def)
  moreover from True have "\<forall>i<m_size v. m_mapping ?v' ! i = m_mapping v ! i \<and> at ?v' i = at v i"
    by (simp add: at_def capacity_def)
  ultimately show ?thesis using True
    by (intro exI [of _ ?v']) (simp add: size_mv_def capacity_def)
next
  case False
  with assms(1) have eq: "capacity v = m_size v" by simp
  then have len: "length (m_mapping v) = m_size v" by (simp add: capacity_def)
  let ?v' = "\<lparr>m_size = m_size v + 1,
      m_mapping = (m_mapping v @ replicate (mmap_vector_size_increment + 1) (empty_value P))[m_size v := x]\<rparr>"
  from False assms(3) eq have "push_back P v x = (None, ?v')"
    by (simp add: push_back_eq [OF assms(1,2)])
  moreover have "at ?v' (m_size v) = Inr x"
    by (simp add: at_def len)
  moreover have "\<forall>i<m_size v. m_mapping ?v' ! i = m_mapping v ! i \<and> at ?v' i = at v i"
    by (simp add: at_def eq len nth_append)
  ultimately show ?thesis using eq len
    by (intro exI [of _ ?v']) (simp add: size_mv_def)
qed


theorem push_back_appends_witness:
  "(\<exists>v'. push_back uint64_platform \<lparr>m_size = 2, m_mapping = [7, 8]\<rparr> 9 = (None, v') \<and>
         capacity v' = 1048579 \<and> size_mv v' = 3 \<and> at v' 2 = Inr 9 \<and> at v' 1 = Inr 8) \<and>
   (\<exists>v'. push_back uint64_platform \<lparr>m_size = 1, m_mapping = [7, 8]\<rparr> 9 = (None, v') \<and>
         capacity v' = 2 \<and> size_mv v' = 2 \<and> at v' 1 = Inr 9 \<and> at v' 0 = Inr 7)"
proof -
  let ?v = "\<lparr>m_size = 2, m_mapping = [7, 8 :: nat]\<rparr>"
  let ?w = "\<lparr>m_size = 1, m_mapping = [7, 8 :: nat]\<rparr>"
  have v1: "m_size ?v \<le> capacity ?v" and w1: "m_size ?w \<le> capacity ?w" by simp_all
  have v2: "capacity ?v + mmap_vector_size_increment + 1 < 2 ^ 64"
    and w2: "capacity ?w + mmap_vector_size_increment + 1 < 2 ^ 64"
    by (simp_all add: mmap_vector_size_increment_def)
  have v3: "capacity ?v < m_size ?v + 1 \<longrightarrow>
            m_size ?v + 1 + mmap_vector_size_increment \<le> mappable uint64_platform"
    and w3: "capacity ?w < m_size ?w + 1 \<longrightarrow>
            m_size ?w + 1 + mmap_vector_size_increment \<le> mappable uint64_platform"
    by (simp_all add: mmap_vector_size_increment_def)
  from push_back_appends [OF v1 v2 v3, of 9] obtain v' where
    "push_back uint64_platform ?v 9 = (None, v')" "capacity v' = 1048579" "size_mv v' = 3"
    "at v' 2 = Inr 9" "at v' 1 = at ?v 1"
    by (auto simp: mmap_vector_size_increment_def)
  moreover from push_back_appends [OF w1 w2 w3, of 9] obtain w' where
    "push_back uint64_platform ?w 9 = (None, w')" "capacity w' = 2" "size_mv w' = 2"
    "at w' 1 = Inr 9" "at w' 0 = at ?w 0"
    by (auto simp: mmap_vector_size_increment_def)
  ultimately show ?thesis by (simp add: at_def)
qed

text \<open>
  C7. \<open>reserve(n)\<close> with \<open>n <= capacity()\<close> changes nothing. With \<open>n > capacity()\<close>,
  when the system can map \<open>n\<close> elements, the capacity becomes exactly \<open>n\<close>, the size
  stays, the slots \<open>[capacity(), n)\<close> hold the empty value and the slots below the old
  capacity are as before.
\<close>

theorem reserve_grows_to_exactly:
  "(n \<le> capacity v \<longrightarrow> reserve P v n = (None, v)) \<and>
   (capacity v < n \<and> n \<le> mappable P \<longrightarrow>
      (\<exists>v'. reserve P v n = (None, v') \<and> capacity v' = n \<and> size_mv v' = size_mv v \<and>
            (\<forall>i. capacity v \<le> i \<and> i < n \<longrightarrow> m_mapping v' ! i = empty_value P) \<and>
            take (capacity v) (m_mapping v') = m_mapping v))"
  by (auto simp: reserve_eq size_mv_def capacity_def nth_append)

theorem reserve_grows_to_exactly_witness:
  "reserve uint64_platform \<lparr>m_size = 1, m_mapping = [7, 8]\<rparr> 2 = (None, \<lparr>m_size = 1, m_mapping = [7, 8]\<rparr>) \<and>
   (\<exists>v'. reserve uint64_platform \<lparr>m_size = 1, m_mapping = [7, 8]\<rparr> 4 = (None, v') \<and> capacity v' = 4 \<and>
         size_mv v' = 1 \<and> m_mapping v' ! 2 = empty_value uint64_platform \<and>
         m_mapping v' ! 3 = empty_value uint64_platform \<and> take 2 (m_mapping v') = [7, 8])"
proof -
  let ?v = "\<lparr>m_size = 1, m_mapping = [7, 8 :: nat]\<rparr>"
  have a: "2 \<le> capacity ?v" by simp
  have b: "capacity ?v < 4 \<and> 4 \<le> mappable uint64_platform" by simp
  from reserve_grows_to_exactly [of 2 ?v uint64_platform, THEN conjunct1, THEN mp, OF a]
  have "reserve uint64_platform ?v 2 = (None, ?v)" .
  moreover
  from reserve_grows_to_exactly [of 4 ?v uint64_platform, THEN conjunct2, THEN mp, OF b]
  obtain v' where "reserve uint64_platform ?v 4 = (None, v')" "capacity v' = 4" "size_mv v' = size_mv ?v"
    "\<forall>i. capacity ?v \<le> i \<and> i < 4 \<longrightarrow> m_mapping v' ! i = empty_value uint64_platform"
    "take (capacity ?v) (m_mapping v') = m_mapping ?v"
    by (elim exE conjE)
  ultimately show ?thesis by (simp add: size_mv_def numeral_2_eq_2)
qed

text \<open>
  C8. When the resize of the mapping raises an error and leaves the mapping as it
  was, \<open>reserve\<close>, \<open>resize\<close> and \<open>push_back\<close> raise that error and the vector is
  exactly as before the call: the size is not set, nothing is filled, and
  \<open>push_back\<close> stores no element. The first condition of each part says that the
  member does call the resize of the mapping.
\<close>

theorem failed_growth_changes_nothing:
  "(capacity v < n \<and> mapping_resize P (m_mapping v) n = (Some e, m_mapping v) \<longrightarrow>
      reserve P v n = (Some e, v)) \<and>
   (capacity v < n \<and> capacity v < size_t_add n mmap_vector_size_increment \<and>
    mapping_resize P (m_mapping v) (size_t_add n mmap_vector_size_increment) = (Some e, m_mapping v) \<longrightarrow>
      resize P v n = (Some e, v)) \<and>
   (capacity v < size_t_add (m_size v) 1 \<and>
    capacity v < size_t_add (size_t_add (m_size v) 1) mmap_vector_size_increment \<and>
    mapping_resize P (m_mapping v) (size_t_add (size_t_add (m_size v) 1) mmap_vector_size_increment) =
      (Some e, m_mapping v) \<longrightarrow>
      push_back P v x = (Some e, v))"
  by (simp add: push_back_def resize_def reserve_def)

theorem failed_growth_changes_nothing_witness:
  "reserve (uint64_platform\<lparr>mappable := 8\<rparr>) \<lparr>m_size = 2, m_mapping = [7, 8]\<rparr> 9 =
     (Some Resource_error, \<lparr>m_size = 2, m_mapping = [7, 8]\<rparr>) \<and>
   resize (uint64_platform\<lparr>mappable := 8\<rparr>) \<lparr>m_size = 2, m_mapping = [7, 8]\<rparr> 3 =
     (Some Resource_error, \<lparr>m_size = 2, m_mapping = [7, 8]\<rparr>) \<and>
   push_back (uint64_platform\<lparr>mappable := 8\<rparr>) \<lparr>m_size = 2, m_mapping = [7, 8]\<rparr> 9 =
     (Some Resource_error, \<lparr>m_size = 2, m_mapping = [7, 8]\<rparr>)"
proof -
  let ?P = "uint64_platform\<lparr>mappable := 8\<rparr>"
  let ?v = "\<lparr>m_size = 2, m_mapping = [7, 8 :: nat]\<rparr>"
  have a: "capacity ?v < 9 \<and> mapping_resize ?P (m_mapping ?v) 9 = (Some Resource_error, m_mapping ?v)"
    by (simp add: mapping_resize_def)
  have b: "capacity ?v < 3 \<and> capacity ?v < size_t_add 3 mmap_vector_size_increment \<and>
    mapping_resize ?P (m_mapping ?v) (size_t_add 3 mmap_vector_size_increment) =
      (Some Resource_error, m_mapping ?v)"
    by (simp add: mapping_resize_def size_t_add_def mmap_vector_size_increment_def)
  have c: "capacity ?v < size_t_add (m_size ?v) 1 \<and>
    capacity ?v < size_t_add (size_t_add (m_size ?v) 1) mmap_vector_size_increment \<and>
    mapping_resize ?P (m_mapping ?v) (size_t_add (size_t_add (m_size ?v) 1) mmap_vector_size_increment) =
      (Some Resource_error, m_mapping ?v)"
    by (simp add: mapping_resize_def size_t_add_def mmap_vector_size_increment_def)
  note t = failed_growth_changes_nothing [of ?v _ ?P Resource_error]
  from t [of 9, THEN conjunct1, THEN mp, OF a]
       t [of 3, THEN conjunct2, THEN conjunct1, THEN mp, OF b]
       t [of 0 9, THEN conjunct2, THEN conjunct2, THEN mp, OF c]
  show ?thesis by simp
qed

lemma step_tail:
  assumes "addressable P" "vector_inv P v" "tail_is_empty P v" "fits a" "keeps_size v a"
  shows "tail_is_empty P (snd (step P v a))"
proof (cases a)
  case (Push_back x)
  have b: "capacity v + mmap_vector_size_increment + 1 < 2 ^ 64"
    using assms by (simp add: addressable_def vector_inv_def)
  from assms(2) have le: "m_size v \<le> capacity v" by (simp add: vector_inv_def)
  note pb = push_back_eq [OF le b, of P x]
  show ?thesis
  proof (cases "m_size v < capacity v")
    case True
    have "set (drop (Suc (m_size v)) (m_mapping v)) \<subseteq> set (drop (m_size v) (m_mapping v))"
      by (rule set_drop_subset_set_drop) simp
    with assms(3) True show ?thesis
      unfolding Push_back by (auto simp: pb tail_is_empty_def)
  next
    case False
    with le have "length (m_mapping v) = m_size v" by (simp add: capacity_def)
    with False assms(3) show ?thesis
      unfolding Push_back by (auto simp: pb tail_is_empty_def)
  qed
next
  case (Reserve n)
  with assms(2,3) show ?thesis
    by (auto simp: reserve_eq tail_is_empty_def vector_inv_def capacity_def)
next
  case (Resize n)
  with assms(4) have nw: "n + mmap_vector_size_increment < 2 ^ 64" by simp
  from Resize assms(5) have "m_size v \<le> n" by simp
  then have "set (drop n (m_mapping v)) \<subseteq> set (drop (m_size v) (m_mapping v))"
    by (rule set_drop_subset_set_drop)
  with assms(2,3) show ?thesis
    unfolding Resize by (auto simp: resize_no_wrap [OF nw] tail_is_empty_def vector_inv_def capacity_def)
next
  case Clear
  with assms(3,5) show ?thesis by (simp add: clear_def tail_is_empty_def)
next
  case Shrink_to_fit
  from assms(2) have "m_size v \<le> capacity v" by (simp add: vector_inv_def)
  from shrink_to_fit_char [OF this, of P] obtain r where
    r: "shrink_to_fit P v = (None, v\<lparr>m_size := r\<rparr>)" "r \<le> m_size v"
       "\<forall>i. r \<le> i \<and> i < m_size v \<longrightarrow> m_mapping v ! i = empty_value P"
    by (elim exE conjE)
  have "tail_is_empty P (v\<lparr>m_size := r\<rparr>)"
    unfolding tail_is_empty_nth
  proof (intro allI impI)
    fix i assume i: "m_size (v\<lparr>m_size := r\<rparr>) \<le> i \<and> i < capacity (v\<lparr>m_size := r\<rparr>)"
    show "m_mapping (v\<lparr>m_size := r\<rparr>) ! i = empty_value P"
    proof (cases "i < m_size v")
      case True
      with i r(3) show ?thesis by simp
    next
      case False
      with i assms(3) show ?thesis by (simp add: tail_is_empty_nth)
    qed
  qed
  with r(1) Shrink_to_fit show ?thesis by simp
next
  case (At n)
  with assms(3) show ?thesis by (simp split: sum.splits)
qed

lemma run_tail:
  assumes "addressable P"
  shows "vector_inv P v \<Longrightarrow> tail_is_empty P v \<Longrightarrow> \<forall>a\<in>set ops. fits a \<Longrightarrow> never_lowers P v ops \<Longrightarrow>
         k \<le> length ops \<Longrightarrow> \<exists>w. run P v (take k ops) = Some w \<and> tail_is_empty P w"
proof (induction ops arbitrary: v k)
  case Nil
  then show ?case by simp
next
  case (Cons a ops)
  show ?case
  proof (cases k)
    case 0
    with Cons.prems(2) show ?thesis by simp
  next
    case (Suc j)
    from Cons.prems have fa: "fits a" and ka: "keeps_size v a" by simp_all
    from step_inv [OF assms Cons.prems(1) fa]
    have s: "fst (step P v a) \<noteq> Some Undefined_behaviour" "vector_inv P (snd (step P v a))"
      by simp_all
    have t: "tail_is_empty P (snd (step P v a))"
      by (rule step_tail [OF assms Cons.prems(1,2) fa ka])
    from Cons.prems Suc have "\<forall>a\<in>set ops. fits a" "never_lowers P (snd (step P v a)) ops" "j \<le> length ops"
      by simp_all
    from Cons.IH [OF s(2) t this] obtain w where
      "run P (snd (step P v a)) (take j ops) = Some w" "tail_is_empty P w" by blast
    with s(1) Suc show ?thesis by (simp add: case_prod_unfold)
  qed
qed


text \<open>
  C5. The claim is that after every public operation every slot in
  \<open>[size, capacity)\<close> holds the empty value. It holds after construction by either
  constructor and after each operation of a sequence in which no operation lowers the
  size (\<open>clear()\<close> only on an empty vector, \<open>resize(n)\<close> only with \<open>n >= size()\<close>) and
  the size arithmetic does not wrap around.
\<close>

theorem tail_is_empty_while_size_is_not_lowered:
  assumes "addressable P"
    and "mmap_vector_base_anon P cap = Inr v0 \<or> mmap_vector_base_fd P file cap sz = Inr v0"
    and "\<forall>a\<in>set ops. fits a"
    and "never_lowers P v0 ops"
  shows "tail_is_empty P v0 \<and>
         (\<forall>k\<le>length ops. \<exists>v. run P v0 (take k ops) = Some v \<and> tail_is_empty P v)"
proof -
  from assms(2) have inv: "vector_inv P v0" and t: "tail_is_empty P v0"
    using anon_inv fd_inv by blast+
  from run_tail [OF assms(1) inv t assms(3,4)] t show ?thesis by blast
qed

theorem tail_is_empty_witness:
  "\<exists>v. run uint64_platform \<lparr>m_size = 0, m_mapping = [18446744073709551615, 18446744073709551615]\<rparr>
          [Push_back 5, Resize 2, Shrink_to_fit, Reserve 4] = Some v \<and> tail_is_empty uint64_platform v"
proof -
  let ?e = "18446744073709551615 :: nat"
  let ?v0 = "\<lparr>m_size = 0, m_mapping = [?e, ?e]\<rparr>"
  let ?ops = "[Push_back 5, Resize 2, Shrink_to_fit, Reserve 4] :: nat operation list"
  have "replicate 2 ?e = [?e, ?e]" by (simp add: numeral_2_eq_2)
  then have c: "mmap_vector_base_anon uint64_platform 2 = Inr ?v0 \<or>
           mmap_vector_base_fd uint64_platform [] 2 0 = Inr ?v0"
    by (simp add: anon_eq)
  have f: "\<forall>a\<in>set ?ops. fits a"
    by (simp add: mmap_vector_size_increment_def)
  have pb: "push_back uint64_platform ?v0 5 = (None, \<lparr>m_size = Suc 0, m_mapping = [5, ?e]\<rparr>)"
    by (subst push_back_eq) (simp_all add: mmap_vector_size_increment_def)
  have rz: "resize uint64_platform \<lparr>m_size = Suc 0, m_mapping = [5, ?e]\<rparr> 2 =
              (None, \<lparr>m_size = 2, m_mapping = [5, ?e]\<rparr>)"
    by (simp add: resize_eq)
  have n: "never_lowers uint64_platform ?v0 ?ops"
    by (simp add: pb rz)
  from tail_is_empty_while_size_is_not_lowered [OF addressable_uint64 c f n]
  have "\<forall>k\<le>length ?ops. \<exists>v. run uint64_platform ?v0 (take k ?ops) = Some v \<and> tail_is_empty uint64_platform v"
    by (rule conjunct2)
  from this [rule_format, of 4] show ?thesis by simp
qed

text \<open>
  \<open>clear()\<close> and a shrinking \<open>resize\<close> only set the size: the slots they give up keep
  what was stored there.
\<close>

theorem stale_slots_counterexample:
  "mmap_vector_base_anon uint64_platform 2 =
     Inr \<lparr>m_size = 0, m_mapping = [18446744073709551615, 18446744073709551615]\<rparr> \<and>
   run uint64_platform \<lparr>m_size = 0, m_mapping = [18446744073709551615, 18446744073709551615]\<rparr>
     [Push_back 7, Clear] = Some \<lparr>m_size = 0, m_mapping = [7, 18446744073709551615]\<rparr> \<and>
   \<not> tail_is_empty uint64_platform \<lparr>m_size = 0, m_mapping = [7, 18446744073709551615]\<rparr> \<and>
   run uint64_platform \<lparr>m_size = 0, m_mapping = [18446744073709551615, 18446744073709551615]\<rparr>
     [Push_back 7, Push_back 8, Resize 1] = Some \<lparr>m_size = 1, m_mapping = [7, 8]\<rparr> \<and>
   \<not> tail_is_empty uint64_platform \<lparr>m_size = 1, m_mapping = [7, 8]\<rparr>"
proof -
  let ?e = "18446744073709551615 :: nat"
  have pb1: "push_back uint64_platform \<lparr>m_size = 0, m_mapping = [?e, ?e]\<rparr> 7 =
               (None, \<lparr>m_size = Suc 0, m_mapping = [7, ?e]\<rparr>)"
    by (subst push_back_eq) (simp_all add: mmap_vector_size_increment_def)
  have pb2: "push_back uint64_platform \<lparr>m_size = Suc 0, m_mapping = [7, ?e]\<rparr> 8 =
               (None, \<lparr>m_size = 2, m_mapping = [7, 8]\<rparr>)"
    by (subst push_back_eq) (simp_all add: mmap_vector_size_increment_def)
  show ?thesis
    by (simp add: anon_eq pb1 pb2 resize_eq clear_def tail_is_empty_def) (simp add: numeral_2_eq_2)
qed

lemma fd_unfold:
  assumes "0 < cap" "cap \<le> mappable P" "sz \<le> cap"
  shows "mmap_vector_base_fd P file cap sz =
     (case shrink_to_fit P \<lparr>m_size = sz,
              m_mapping = take sz (take cap (grow_file P cap file)) @ replicate (cap - sz) (empty_value P)\<rparr> of
        (Some e, v) \<Rightarrow> Inl e
      | (None, v) \<Rightarrow> Inr v)"
proof -
  let ?cells = "take cap (grow_file P cap file)"
  have len: "length ?cells = cap" by (simp add: grow_file_def)
  have fill: "std_fill ?cells sz cap (empty_value P) = Inr (take sz ?cells @ replicate (cap - sz) (empty_value P))"
    using assms len by (subst std_fill_eq) simp_all
  from assms fill show ?thesis
    by (simp add: mmap_vector_base_fd_def mapping_file_def)
qed

lemma fd_zero:
  assumes "0 < cap" "cap \<le> mappable P"
  shows "mmap_vector_base_fd P file cap 0 = Inr \<lparr>m_size = 0, m_mapping = replicate cap (empty_value P)\<rparr>"
  using assms by (simp add: fd_unfold shrink_to_fit.simps)

lemma push_back_all_eq:
  "s + length xs \<le> length M \<Longrightarrow> length M + mmap_vector_size_increment + 1 < 2 ^ 64 \<Longrightarrow>
   push_back_all P \<lparr>m_size = s, m_mapping = M\<rparr> xs =
     (None, \<lparr>m_size = s + length xs, m_mapping = take s M @ xs @ drop (s + length xs) M\<rparr>)"
proof (induction xs arbitrary: s M)
  case Nil
  then show ?case by simp
next
  case (Cons x xs)
  let ?v = "\<lparr>m_size = s, m_mapping = M\<rparr>"
  from Cons.prems have lt: "s < length M" by simp
  have pb: "push_back P ?v x = (None, \<lparr>m_size = Suc s, m_mapping = M[s := x]\<rparr>)"
    using Cons.prems lt by (subst push_back_eq) simp_all
  have "push_back_all P \<lparr>m_size = Suc s, m_mapping = M[s := x]\<rparr> xs =
     (None, \<lparr>m_size = Suc s + length xs,
        m_mapping = take (Suc s) (M[s := x]) @ xs @ drop (Suc s + length xs) (M[s := x])\<rparr>)"
    using Cons.prems by (intro Cons.IH) simp_all
  moreover have "take (Suc s) (M[s := x]) = take s M @ [x]"
    using lt by (simp add: take_Suc_conv_app_nth)
  ultimately show ?case using pb by simp
qed


lemma first_run:
  assumes "0 < cap" "cap \<le> mappable P" "cap + mmap_vector_size_increment + 1 < 2 ^ 64"
    and "length xs \<le> cap"
  shows "reopened P file cap xs sz =
     mmap_vector_base_fd P
       ((xs @ replicate (cap - length xs) (empty_value P)) @ drop cap (grow_file P cap file)) cap sz"
proof -
  have "push_back_all P \<lparr>m_size = 0, m_mapping = replicate cap (empty_value P)\<rparr> xs =
     (None, \<lparr>m_size = 0 + length xs,
        m_mapping = take 0 (replicate cap (empty_value P)) @ xs @
                    drop (0 + length xs) (replicate cap (empty_value P))\<rparr>)"
    using assms by (intro push_back_all_eq) simp_all
  with assms show ?thesis
    by (simp add: reopened_def fd_zero close_fd_def)
qed

lemma reopened_eq:
  assumes "0 < cap" "cap \<le> mappable P" "cap + mmap_vector_size_increment + 1 < 2 ^ 64"
    and "length xs \<le> sz" "sz \<le> cap" "\<forall>x\<in>set xs. x \<noteq> empty_value P"
  shows "reopened P file cap xs sz =
     Inr \<lparr>m_size = length xs, m_mapping = xs @ replicate (cap - length xs) (empty_value P)\<rparr>"
proof -
  let ?e = "empty_value P"
  let ?n = "length xs"
  let ?M = "xs @ replicate (cap - ?n) ?e"
  let ?F = "?M @ drop cap (grow_file P cap file)"
  from assms have n: "?n \<le> cap" by simp
  have lenM: "length ?M = cap" using n by simp
  have "take cap (grow_file P cap ?F) = ?M"
    using lenM by (simp add: grow_file_def)
  moreover have split: "?M = xs @ replicate (sz - ?n) ?e @ replicate (cap - sz) ?e"
    using assms(4,5) by (simp flip: replicate_add)
  then have "take sz ?M @ replicate (cap - sz) ?e = xs @ replicate (sz - ?n) ?e @ replicate (cap - sz) ?e"
    using assms(4) by simp
  moreover have "shrink_to_fit P \<lparr>m_size = ?n + (sz - ?n),
        m_mapping = xs @ replicate (sz - ?n) ?e @ replicate (cap - sz) ?e\<rparr> =
      (None, \<lparr>m_size = ?n, m_mapping = xs @ replicate (sz - ?n) ?e @ replicate (cap - sz) ?e\<rparr>)"
    by (rule shrink_to_fit_replicate [OF assms(6)])
  moreover have "?n + (sz - ?n) = sz" using assms(4) by simp
  ultimately have "mmap_vector_base_fd P ?F cap sz =
      Inr \<lparr>m_size = ?n, m_mapping = xs @ replicate (sz - ?n) ?e @ replicate (cap - sz) ?e\<rparr>"
    using assms(1,2,5) by (simp add: fd_unfold del: take_append)
  with split show ?thesis
    by (simp add: first_run [OF assms(1,2,3) n])
qed

lemma reopened_zero:
  assumes "0 < cap" "cap \<le> mappable P" "cap + mmap_vector_size_increment + 1 < 2 ^ 64"
    and "length xs \<le> cap"
  shows "reopened P file cap xs 0 = Inr \<lparr>m_size = 0, m_mapping = replicate cap (empty_value P)\<rparr>"
  using assms by (simp add: first_run fd_zero)

text \<open>
  C2. The claim is that ten values other than the empty value, stored at the indices
  0..9 of a file-backed vector of capacity 1000, are found again by a vector
  constructed on the same descriptor with the same capacity. That holds when the
  second constructor is given a size \<open>sz\<close> with \<open>10 <= sz <= 1000\<close>: it fills
  \<open>[sz, capacity)\<close> with the empty value and trims the trailing empty slots, which
  leaves size 10 and the ten values. The theorem is for any capacity and any number
  of values that fits it.
\<close>

theorem reopened_with_resumed_size:
  assumes "0 < cap" "cap \<le> mappable P" "cap + mmap_vector_size_increment + 1 < 2 ^ 64"
    and "length xs \<le> sz" "sz \<le> cap" "\<forall>x\<in>set xs. x \<noteq> empty_value P"
  shows "(\<exists>v. reopened P file cap xs sz = Inr v \<and> size_mv v = length xs \<and>
             (\<forall>i<length xs. at v i = Inr (xs ! i)) \<and>
             (\<forall>i. length xs \<le> i \<and> i < cap \<longrightarrow> m_mapping v ! i = empty_value P)) \<and>
         (\<forall>file' v'. mmap_vector_base_fd P file' cap sz = Inr v' \<longrightarrow>
             (\<exists>r\<le>sz. v' = \<lparr>m_size = r,
                   m_mapping = take sz (take cap (grow_file P cap file')) @
                               replicate (cap - sz) (empty_value P)\<rparr> \<and>
                 (r = 0 \<or> m_mapping v' ! (r - 1) \<noteq> empty_value P) \<and>
                 (\<forall>i. r \<le> i \<and> i < sz \<longrightarrow> m_mapping v' ! i = empty_value P)))"
proof (intro conjI allI impI)
  let ?v = "\<lparr>m_size = length xs, m_mapping = xs @ replicate (cap - length xs) (empty_value P)\<rparr>"
  from assms have "length xs \<le> cap" by simp
  then have "\<forall>i<length xs. at ?v i = Inr (xs ! i)"
    by (simp add: at_def nth_append)
  moreover have "\<forall>i. length xs \<le> i \<and> i < cap \<longrightarrow> m_mapping ?v ! i = empty_value P"
    by (auto simp: nth_append)
  ultimately show "\<exists>v. reopened P file cap xs sz = Inr v \<and> size_mv v = length xs \<and>
             (\<forall>i<length xs. at v i = Inr (xs ! i)) \<and>
             (\<forall>i. length xs \<le> i \<and> i < cap \<longrightarrow> m_mapping v ! i = empty_value P)"
    using reopened_eq [OF assms] by (intro exI [of _ ?v]) (simp add: size_mv_def)
next
  fix file' v'
  assume "mmap_vector_base_fd P file' cap sz = Inr v'"
  from fd_constructed [OF this]
  show "\<exists>r\<le>sz. v' = \<lparr>m_size = r,
                   m_mapping = take sz (take cap (grow_file P cap file')) @
                               replicate (cap - sz) (empty_value P)\<rparr> \<and>
                 (r = 0 \<or> m_mapping v' ! (r - 1) \<noteq> empty_value P) \<and>
                 (\<forall>i. r \<le> i \<and> i < sz \<longrightarrow> m_mapping v' ! i = empty_value P)"
    by blast
qed

theorem reopened_with_resumed_size_witness:
  "\<exists>v. reopened uint64_platform [] 1000 [11, 12, 13, 14, 15, 16, 17, 18, 19, 20] 1000 = Inr v \<and>
       size_mv v = 10 \<and> at v 0 = Inr 11 \<and> at v 9 = Inr 20"
proof -
  let ?xs = "[11, 12, 13, 14, 15, 16, 17, 18, 19, 20] :: nat list"
  have h: "0 < (1000::nat)" "1000 \<le> mappable uint64_platform"
    "1000 + mmap_vector_size_increment + 1 < 2 ^ 64"
    "length ?xs \<le> 1000" "(1000::nat) \<le> 1000" "\<forall>x\<in>set ?xs. x \<noteq> empty_value uint64_platform"
    by (simp_all add: mmap_vector_size_increment_def)
  from reopened_with_resumed_size [OF h, of "[]", THEN conjunct1] obtain v where
    v: "reopened uint64_platform [] 1000 ?xs 1000 = Inr v" "size_mv v = length ?xs"
       "\<forall>i<length ?xs. at v i = Inr (?xs ! i)"
    by blast
  from v(3) have "at v 0 = Inr (?xs ! 0)" "at v 9 = Inr (?xs ! 9)" by simp_all
  with v(1,2) show ?thesis by simp
qed

text \<open>
  With the default size 0 the constructor fills \<open>[0, capacity)\<close>, every slot of the
  mapping, with the empty value before it trims: the values of the previous run are
  overwritten and the size is 0.
\<close>

theorem reopened_with_default_size_counterexample:
  "reopened uint64_platform [] 1000 [11, 12, 13, 14, 15, 16, 17, 18, 19, 20] 0 =
     Inr \<lparr>m_size = 0, m_mapping = replicate 1000 (empty_value uint64_platform)\<rparr> \<and>
   size_mv \<lparr>m_size = 0, m_mapping = replicate 1000 (empty_value uint64_platform)\<rparr> \<noteq> 10 \<and>
   at \<lparr>m_size = 0, m_mapping = replicate 1000 (empty_value uint64_platform)\<rparr> 0 = Inl Out_of_range"
  by (simp add: reopened_zero mmap_vector_size_increment_def size_mv_def at_def)

section \<open>What \<open>at\<close> returns\<close>

lemma holds_written_grow:
  assumes "holds_written P v w" "capacity v + k \<le> mappable P"
  shows "holds_written P (v\<lparr>m_mapping := m_mapping v @ replicate k (empty_value P)\<rparr>) w"
  using assms
  by (auto simp: holds_written_def vector_inv_def capacity_def nth_append written_or_empty_def)

lemma holds_written_size:
  assumes "holds_written P v w" "n \<le> capacity v"
  shows "holds_written P (v\<lparr>m_size := n\<rparr>) w"
  using assms by (simp add: holds_written_def vector_inv_def)

lemma holds_written_update:
  assumes "holds_written P v w" "n < capacity v"
  shows "holds_written P (v\<lparr>m_mapping := (m_mapping v)[n := x]\<rparr>) (w(n \<mapsto> x))"
  using assms
  by (auto simp: holds_written_def vector_inv_def capacity_def nth_list_update written_or_empty_def)


lemma vector_literal:
  "v\<lparr>m_mapping := a, m_size := b\<rparr> = \<lparr>m_size = b, m_mapping = a\<rparr>"
  "v\<lparr>m_size := b, m_mapping := a\<rparr> = \<lparr>m_size = b, m_mapping = a\<rparr>"
  for v :: "'a mmap_vector_base"
  by simp_all

lemma act_holds_written:
  assumes "addressable P" "holds_written P v w" "fits_action a"
  shows "holds_written P (snd (act P v a)) (if fst (act P v a) = None then last_written v w a else w)"
proof -
  from assms(2) have inv: "vector_inv P v" by (simp add: holds_written_def)
  then have le: "m_size v \<le> capacity v" and cm: "capacity v \<le> mappable P"
    by (simp_all add: vector_inv_def)
  show ?thesis
  proof (cases a)
    case (Assign n x)
    show ?thesis
    proof (cases "n < m_size v")
      case True
      with le have "n < capacity v" by simp
      from holds_written_update [OF assms(2) this, of x] True \<open>n < capacity v\<close> show ?thesis
        unfolding Assign by (simp add: store_def)
    next
      case False
      with assms(2) show ?thesis unfolding Assign by (simp add: store_def)
    qed
  next
    case (Call b)
    show ?thesis
    proof (cases b)
      case (Push_back x)
      have bnd: "capacity v + mmap_vector_size_increment + 1 < 2 ^ 64"
        using assms(1) cm by (simp add: addressable_def)
      note pb = push_back_eq [OF le bnd, of P x]
      show ?thesis
      proof (cases "m_size v < capacity v")
        case True
        from holds_written_update [OF assms(2) True, of x]
        have "holds_written P (v\<lparr>m_mapping := (m_mapping v)[m_size v := x]\<rparr>) (w(m_size v \<mapsto> x))" .
        moreover from True have "m_size v + 1 \<le> capacity (v\<lparr>m_mapping := (m_mapping v)[m_size v := x]\<rparr>)"
          by (simp add: capacity_def)
        ultimately have "holds_written P
            (v\<lparr>m_mapping := (m_mapping v)[m_size v := x], m_size := m_size v + 1\<rparr>) (w(m_size v \<mapsto> x))"
          by (rule holds_written_size)
        with True show ?thesis unfolding Call Push_back by (simp add: pb vector_literal)
      next
        case False
        with le have eq: "capacity v = m_size v" by simp
        show ?thesis
        proof (cases "mappable P < m_size v + 1 + mmap_vector_size_increment")
          case True
          with False assms(2) show ?thesis unfolding Call Push_back by (simp add: pb)
        next
          case nofail: False
          let ?k = "mmap_vector_size_increment + 1"
          let ?v1 = "v\<lparr>m_mapping := m_mapping v @ replicate ?k (empty_value P)\<rparr>"
          from nofail eq have "capacity v + ?k \<le> mappable P" by simp
          from holds_written_grow [OF assms(2) this] have h1: "holds_written P ?v1 w" .
          have "m_size v < capacity ?v1" using eq by (simp add: capacity_def)
          from holds_written_update [OF h1 this, of x]
          have h2: "holds_written P (?v1\<lparr>m_mapping := (m_mapping ?v1)[m_size v := x]\<rparr>) (w(m_size v \<mapsto> x))" .
          have "m_size v + 1 \<le> capacity (?v1\<lparr>m_mapping := (m_mapping ?v1)[m_size v := x]\<rparr>)"
            using eq by (simp add: capacity_def)
          from holds_written_size [OF h2 this]
          have "holds_written P
                  \<lparr>m_size = m_size v + 1,
                     m_mapping = (m_mapping v @ replicate ?k (empty_value P))[m_size v := x]\<rparr>
                  (w(m_size v \<mapsto> x))"
            by (simp add: vector_literal)
          with False nofail show ?thesis unfolding Call Push_back by (simp add: pb)
        qed
      qed
    next
      case (Reserve n)
      show ?thesis
      proof (cases "capacity v < n \<and> \<not> mappable P < n")
        case True
        then have "capacity v + (n - capacity v) \<le> mappable P" by simp
        from holds_written_grow [OF assms(2) this] True show ?thesis
          unfolding Call Reserve by (simp add: reserve_eq)
      next
        case False
        with assms(2) show ?thesis unfolding Call Reserve by (auto simp: reserve_eq)
      qed
    next
      case (Resize n)
      with assms(3) Call have nw: "n + mmap_vector_size_increment < 2 ^ 64" by simp
      note rz = resize_no_wrap [OF nw, of P v]
      show ?thesis
      proof (cases "capacity v < n")
        case False
        then have "n \<le> capacity v" by simp
        from holds_written_size [OF assms(2) this] False show ?thesis
          unfolding Call Resize by (simp add: rz)
      next
        case True
        show ?thesis
        proof (cases "mappable P < n + mmap_vector_size_increment")
          case fail: True
          with True assms(2) show ?thesis unfolding Call Resize by (simp add: rz)
        next
          case False
          let ?k = "n + mmap_vector_size_increment - capacity v"
          let ?v1 = "v\<lparr>m_mapping := m_mapping v @ replicate ?k (empty_value P)\<rparr>"
          from True False have "capacity v + ?k \<le> mappable P" by simp
          from holds_written_grow [OF assms(2) this] have h1: "holds_written P ?v1 w" .
          have "n \<le> capacity ?v1" using True by (simp add: capacity_def)
          from holds_written_size [OF h1 this]
          have "holds_written P \<lparr>m_size = n, m_mapping = m_mapping v @ replicate ?k (empty_value P)\<rparr> w"
            by (simp add: vector_literal)
          with True False show ?thesis unfolding Call Resize by (simp add: rz)
        qed
      qed
    next
      case Clear
      from holds_written_size [OF assms(2), of 0] show ?thesis
        unfolding Call Clear by (simp add: clear_def)
    next
      case Shrink_to_fit
      from shrink_to_fit_char [OF le, of P] obtain r where
        r: "shrink_to_fit P v = (None, v\<lparr>m_size := r\<rparr>)" "r \<le> m_size v"
        by (elim exE conjE)
      from r(2) le have "r \<le> capacity v" by simp
      from holds_written_size [OF assms(2) this] r(1) show ?thesis
        unfolding Call Shrink_to_fit by simp
    next
      case (At n)
      with assms(2) show ?thesis unfolding Call by (simp split: sum.splits)
    qed
  qed
qed

lemma history_holds_written:
  assumes "addressable P"
  shows "holds_written P v w \<Longrightarrow> \<forall>a\<in>set acts. fits_action a \<Longrightarrow>
         history P v w acts = Some (v', w') \<Longrightarrow> holds_written P v' w'"
proof (induction acts arbitrary: v w)
  case Nil
  then show ?case by simp
next
  case (Cons a acts)
  let ?r = "fst (act P v a)"
  let ?v1 = "snd (act P v a)"
  let ?w1 = "if ?r = None then last_written v w a else w"
  from Cons.prems(2) have fa: "fits_action a" and rest: "\<forall>a\<in>set acts. fits_action a" by simp_all
  from act_holds_written [OF assms Cons.prems(1) fa] have h: "holds_written P ?v1 ?w1" .
  from Cons.prems(3) have "history P ?v1 ?w1 acts = Some (v', w')"
    by (auto simp: case_prod_unfold Let_def split: if_splits)
  from Cons.IH [OF h rest this] show ?case .
qed


lemma new_holds_written:
  assumes "mmap_vector_base_anon P cap = Inr v0 \<or> mmap_vector_base_fd P file cap 0 = Inr v0"
  shows "holds_written P v0 Map.empty"
proof -
  from assms have inv: "vector_inv P v0"
    using anon_inv fd_inv by blast
  from assms have "v0 = \<lparr>m_size = 0, m_mapping = replicate cap (empty_value P)\<rparr>"
  proof
    assume "mmap_vector_base_anon P cap = Inr v0"
    from anon_constructed [OF this] show ?thesis by simp
  next
    assume fd: "mmap_vector_base_fd P file cap 0 = Inr v0"
    from fd_constructed [OF fd] have "0 < cap" "cap \<le> mappable P" by auto
    from fd_zero [OF this, of "file"] fd show ?thesis by simp
  qed
  with inv show ?thesis
    by (simp add: holds_written_def written_or_empty_def)
qed

text \<open>
  C6. \<open>at(i)\<close> throws \<open>std::out_of_range\<close> exactly when \<open>i >= size()\<close>, and for
  \<open>i < size()\<close> returns the value stored at index \<open>i\<close>; it is a \<open>const\<close> member, and a
  caller that applies it has the same vector afterwards, whether it throws or not.
  On a vector constructed anonymously, or on a file with the initial size 0, and then
  used through the public operations and assignments through \<open>operator[]\<close>, the value
  returned is the last value written at index \<open>i\<close>, or the empty value if none was
  written there. The last part of the statement is about any vector \<open>u\<close>.
\<close>

theorem at_returns_last_written:
  assumes "addressable P"
    and "mmap_vector_base_anon P cap = Inr v0 \<or> mmap_vector_base_fd P file cap 0 = Inr v0"
    and "\<forall>a\<in>set acts. fits_action a"
    and "history P v0 Map.empty acts = Some (v, w)"
  shows "(at v i = Inl Out_of_range \<longleftrightarrow> size_mv v \<le> i) \<and>
         (i < size_mv v \<longrightarrow> at v i = Inr (written_or_empty P w i)) \<and>
         act P v (Call (At i)) = (case at v i of Inl e \<Rightarrow> Some e | Inr x \<Rightarrow> None, v) \<and>
         (\<forall>u j. (at u j = Inl Out_of_range \<longleftrightarrow> size_mv u \<le> j) \<and>
                (j < size_mv u \<and> size_mv u \<le> capacity u \<longrightarrow> at u j = Inr (m_mapping u ! j)) \<and>
                step P u (At j) = (case at u j of Inl e \<Rightarrow> Some e | Inr x \<Rightarrow> None, u))"
proof -
  from history_holds_written [OF assms(1) new_holds_written [OF assms(2)] assms(3,4)]
  have h: "holds_written P v w" .
  then have le: "m_size v \<le> capacity v"
    and cells: "\<And>j. j < capacity v \<Longrightarrow> m_mapping v ! j = written_or_empty P w j"
    by (simp_all add: holds_written_def vector_inv_def)
  have "at v i = Inr (written_or_empty P w i)" if "i < size_mv v"
  proof -
    from that le have "i < m_size v" "i < capacity v" by (simp_all add: size_mv_def)
    with cells [of i] show ?thesis by (simp add: at_def)
  qed
  moreover have "(at u j = Inl Out_of_range \<longleftrightarrow> size_mv u \<le> j) \<and>
                (j < size_mv u \<and> size_mv u \<le> capacity u \<longrightarrow> at u j = Inr (m_mapping u ! j)) \<and>
                step P u (At j) = (case at u j of Inl e \<Rightarrow> Some e | Inr x \<Rightarrow> None, u)"
    for u :: "'a mmap_vector_base" and j
    by (auto simp: at_def size_mv_def split: sum.splits)
  ultimately show ?thesis
    by (auto simp: at_def size_mv_def split: sum.splits)
qed

theorem at_returns_last_written_witness:
  "\<exists>v w. history uint64_platform \<lparr>m_size = 0, m_mapping = [18446744073709551615, 18446744073709551615]\<rparr>
            Map.empty [Call (Push_back 5), Call (Resize 2), Assign 0 9, Call Clear, Call (Resize 2)]
            = Some (v, w) \<and>
          at v 0 = Inr 9 \<and> at v 1 = Inr 18446744073709551615 \<and> at v 2 = Inl Out_of_range"
proof -
  let ?e = "18446744073709551615 :: nat"
  let ?v0 = "\<lparr>m_size = 0, m_mapping = [?e, ?e]\<rparr>"
  let ?acts = "[Call (Push_back 5), Call (Resize 2), Assign 0 9, Call Clear, Call (Resize 2)] :: nat action list"
  have "replicate 2 ?e = [?e, ?e]" by (simp add: numeral_2_eq_2)
  then have c: "mmap_vector_base_anon uint64_platform 2 = Inr ?v0 \<or>
           mmap_vector_base_fd uint64_platform [] 2 0 = Inr ?v0"
    by (simp add: anon_eq)
  have f: "\<forall>a\<in>set ?acts. fits_action a"
    by (simp add: mmap_vector_size_increment_def)
  have pb: "push_back uint64_platform ?v0 5 = (None, \<lparr>m_size = Suc 0, m_mapping = [5, ?e]\<rparr>)"
    by (subst push_back_eq) (simp_all add: mmap_vector_size_increment_def)
  obtain v w where h: "history uint64_platform ?v0 Map.empty ?acts = Some (v, w)"
    and v: "size_mv v = 2" and w: "w 0 = Some 9" "w 1 = None"
    by (simp add: pb resize_eq store_def clear_def size_mv_def)
  note t = at_returns_last_written [OF addressable_uint64 c f h]
  from t [of 0] v w have "at v 0 = Inr 9" by (simp add: written_or_empty_def)
  moreover from t [of 1] v w have "at v 1 = Inr ?e" by (simp add: written_or_empty_def)
  moreover from t [of 2] v have "at v 2 = Inl Out_of_range" by simp
  ultimately show ?thesis using h by blast
qed

text \<open>
  A vector constructed on a file with a resumed size holds in the slots below that
  size what the file holds. On an empty file, which the mapping extends with zeros,
  \<open>mmap_vector_base(fd, 4, 4)\<close> has size 4 and \<open>at(0)\<close> returns 0: a value that was never
  written and is not the empty value.
\<close>

theorem at_of_resumed_slot_counterexample:
  "mmap_vector_base_fd uint64_platform [] 4 4 = Inr \<lparr>m_size = 4, m_mapping = [0, 0, 0, 0]\<rparr> \<and>
   at \<lparr>m_size = 4, m_mapping = [0, 0, 0, 0 :: nat]\<rparr> 0 = Inr 0 \<and>
   (0 :: nat) \<noteq> empty_value uint64_platform"
proof -
  have r4: "replicate 4 (0 :: nat) = [0, 0, 0, 0]"
    by (simp add: numeral_eq_Suc)
  have g: "take 4 (take 4 (grow_file uint64_platform 4 [])) @ replicate (4 - 4) (empty_value uint64_platform)
           = [0, 0, 0, 0]"
    by (simp add: grow_file_def r4)
  have s: "shrink_to_fit uint64_platform \<lparr>m_size = 4, m_mapping = [0, 0, 0, 0]\<rparr> =
           (None, \<lparr>m_size = 4, m_mapping = [0, 0, 0, 0]\<rparr>)"
    by (subst shrink_to_fit.simps) simp
  have "mmap_vector_base_fd uint64_platform [] 4 4 = Inr \<lparr>m_size = 4, m_mapping = [0, 0, 0, 0]\<rparr>"
    by (subst fd_unfold) (simp_all only: g s, simp_all)
  then show ?thesis by (simp add: at_def)
qed

section \<open>Claims about the mapping primitive\<close>

text \<open>
  C9. Both strategies of \<open>remap\<close> fail on the same requests and, when they return,
  return a region of \<open>n\<close> elements whose first \<open>min old_n n\<close> elements are those of
  the old region, whatever the fresh memory of the two platforms holds. The witness is
  the test of the repository: the values 4, 9 and 25 at the indices 0, 3 and 9 of a
  region of 10 elements are read again after it has grown tenfold.
\<close>

theorem remap_strategies_agree:
  "(remap_in_place P region n = Inl Resource_error \<longleftrightarrow> n = 0 \<or> mappable P < n) \<and>
   (remap_copy P' region n = Inl Resource_error \<longleftrightarrow> n = 0 \<or> mappable P' < n) \<and>
   (\<forall>r r'. remap_in_place P region n = Inr r \<and> remap_copy P' region n = Inr r' \<longrightarrow>
      length r = n \<and> length r' = n \<and>
      take (min (length region) n) r = take (min (length region) n) region \<and>
      take (min (length region) n) r' = take (min (length region) n) region \<and>
      (\<forall>i<min (length region) n. r ! i = region ! i \<and> r' ! i = region ! i))"
  by (auto simp: remap_in_place_def remap_copy_def copy_n_def mapping_anon_def nth_append
           split: if_splits)

theorem remap_strategies_agree_witness:
  "(\<exists>r r'. remap_in_place uint64_platform [4, 0, 0, 9, 0, 0, 0, 0, 0, 25] 100 = Inr r \<and>
      remap_copy (uint64_platform\<lparr>unwritten := Suc\<rparr>) [4, 0, 0, 9, 0, 0, 0, 0, 0, 25] 100 = Inr r' \<and>
      length r = 100 \<and> length r' = 100 \<and>
      r ! 0 = 4 \<and> r ! 3 = 9 \<and> r ! 9 = 25 \<and> r' ! 0 = 4 \<and> r' ! 3 = 9 \<and> r' ! 9 = 25) \<and>
   remap_in_place uint64_platform [4, 0, 0, 9, 0, 0, 0, 0, 0, 25] 0 = Inl Resource_error"
proof -
  let ?d = "[4, 0, 0, 9, 0, 0, 0, 0, 0, 25] :: nat list"
  let ?P' = "uint64_platform\<lparr>unwritten := Suc\<rparr>"
  note t = remap_strategies_agree [of uint64_platform ?d _ ?P']
  obtain r where r: "remap_in_place uint64_platform ?d 100 = Inr r"
    by (simp add: remap_in_place_def)
  obtain r' where r': "remap_copy ?P' ?d 100 = Inr r'"
    by (simp add: remap_copy_def mapping_anon_def)
  from t [of 100, THEN conjunct2, THEN conjunct2, rule_format, of r r'] r r'
  have "length r = 100" "length r' = 100"
    "\<forall>i<min (length ?d) 100. r ! i = ?d ! i \<and> r' ! i = ?d ! i"
    by simp_all
  then have "length r = 100 \<and> length r' = 100 \<and>
      r ! 0 = 4 \<and> r ! 3 = 9 \<and> r ! 9 = 25 \<and> r' ! 0 = 4 \<and> r' ! 3 = 9 \<and> r' ! 9 = 25"
    by simp
  moreover from t [of 0, THEN conjunct1]
  have "remap_in_place uint64_platform ?d 0 = Inl Resource_error" by simp
  ultimately show ?thesis using r r' by blast
qed

section \<open>Claims about \<open>StringTable\<close>\<close>

lemma StringTable_new_eq:
  "StringTable_new =
     Inr \<lparr>m_strings = \<lparr>m_chunk_size = 1024 * 1024, m_chunks = [[NUL]]\<rparr>, m_index = Map.empty, m_size32 = 0\<rparr>"
  by (simp add: StringTable_new_def StringStore_add_def StringStore_new_def add_chunk_def Let_def
        c_str_at_def)

lemma StringStore_add_ok:
  assumes "store_ok st" "length s < 1024 * 1024" "NUL \<notin> set s"
  shows "\<exists>st'. StringStore_add st s = Inr (st', s) \<and> store_ok st'"
proof -
  have "takeWhile (\<lambda>c. c \<noteq> NUL) (s @ [NUL]) = s"
    using assms(3) by (induction s) auto
  with assms(1,2) show ?thesis
    by (auto simp: StringStore_add_def store_ok_def Let_def c_str_at_def add_chunk_def)
qed

lemma first_index_append:
  "x \<in> set pre \<Longrightarrow> first_index (pre @ ys) x = first_index pre x"
  by (simp add: first_index_def takeWhile_append1)

lemma first_index_new:
  assumes "x \<notin> set pre"
  shows "first_index (pre @ x # ys) x = card (set pre) + 1"
proof -
  from assms have "takeWhile (\<lambda>y. y \<noteq> x) (pre @ x # ys) = pre @ takeWhile (\<lambda>y. y \<noteq> x) (x # ys)"
    by (intro takeWhile_append2) auto
  then show ?thesis by (simp add: first_index_def)
qed

lemma first_index_le:
  assumes "x \<in> set pre"
  shows "first_index pre x \<le> card (set pre)"
proof -
  have "x \<notin> set (takeWhile (\<lambda>y. y \<noteq> x) pre)"
    by (auto dest: set_takeWhileD)
  with assms have "set (takeWhile (\<lambda>y. y \<noteq> x) pre) \<subset> set pre"
    using set_takeWhileD by fastforce
  then have "card (set (takeWhile (\<lambda>y. y \<noteq> x) pre)) < card (set pre)"
    by (intro psubset_card_mono) simp_all
  then show ?thesis by (simp add: first_index_def)
qed


lemma add_present:
  assumes "table_inv t pre" "s \<in> set pre" "card (set pre) < 2 ^ 32"
  shows "StringTable_add mx t s = (t, Inr (first_index pre s))"
proof -
  from assms(1,2) have "m_index t s = Some (first_index pre s)"
    by (simp add: table_inv_def)
  moreover from first_index_le [OF assms(2)] assms(3) have "first_index pre s < 2 ^ 32"
    by simp
  ultimately show ?thesis by (simp add: StringTable_add_def)
qed

lemma add_fresh:
  assumes "table_inv t pre" "s \<notin> set pre" "card (set pre) < mx" "mx < 2 ^ 32"
    and "length s < 1024 * 1024" "NUL \<notin> set s"
  shows "\<exists>t'. StringTable_add mx t s = (t', Inr (card (set pre) + 1)) \<and> table_inv t' (pre @ [s])"
proof -
  from assms(1) have ok: "store_ok (m_strings t)" and sz: "m_size32 t = card (set pre)"
    and ix: "\<And>x. m_index t x = (if x \<in> set pre then Some (first_index pre x) else None)"
    by (simp_all add: table_inv_def)
  from StringStore_add_ok [OF ok assms(5,6)] obtain st' where
    st: "StringStore_add (m_strings t) s = Inr (st', s)" "store_ok st'" by blast
  let ?n = "card (set pre) + 1"
  let ?t' = "\<lparr>m_strings = st', m_index = (m_index t)(s \<mapsto> ?n), m_size32 = ?n\<rparr>"
  from assms(3,4) have n: "?n mod 2 ^ 32 = ?n" "\<not> mx < ?n" by simp_all
  from assms(2) ix have "m_index t s = None" by simp
  with st(1) sz n have add: "StringTable_add mx t s = (?t', Inr ?n)"
    by (simp add: StringTable_add_def Let_def)
  have "table_inv ?t' (pre @ [s])"
    unfolding table_inv_def
  proof (intro conjI allI)
    show "m_size32 ?t' = card (set (pre @ [s]))" using assms(2) by simp
    show "store_ok (m_strings ?t')" using st(2) by simp
    fix x
    show "m_index ?t' x = (if x \<in> set (pre @ [s]) then Some (first_index (pre @ [s]) x) else None)"
    proof (cases "x = s")
      case True
      with first_index_new [OF assms(2), of "[]"] show ?thesis by simp
    next
      case False
      then show ?thesis by (simp add: ix first_index_append)
    qed
  qed
  with add show ?thesis by blast
qed

lemma table_inv_snoc_present:
  assumes "table_inv t pre" "s \<in> set pre"
  shows "table_inv t (pre @ [s])"
proof -
  from assms(2) have "set (pre @ [s]) = set pre" by auto
  moreover have "first_index (pre @ [s]) x = first_index pre x" if "x \<in> set pre" for x
    using that by (rule first_index_append)
  ultimately show ?thesis using assms(1) by (simp add: table_inv_def)
qed

lemma add_all_inv:
  assumes "mx < 2 ^ 32"
  shows "table_inv t pre \<Longrightarrow> \<forall>s\<in>set ss. length s < 1024 * 1024 \<and> NUL \<notin> set s \<Longrightarrow>
         card (set (pre @ ss)) \<le> mx \<Longrightarrow>
         \<exists>t'. add_all mx t ss = (t', Inr (map (first_index (pre @ ss)) ss)) \<and> table_inv t' (pre @ ss)"
proof (induction ss arbitrary: t pre)
  case Nil
  then show ?case by simp
next
  case (Cons s ss)
  have sub: "card (set (pre @ [s])) \<le> card (set (pre @ s # ss))"
    by (intro card_mono) auto
  have app: "(pre @ [s]) @ ss = pre @ s # ss" by simp
  from Cons.prems(2) have rest: "\<forall>x\<in>set ss. length x < 1024 * 1024 \<and> NUL \<notin> set x" by simp
  from Cons.prems(3) have c': "card (set ((pre @ [s]) @ ss)) \<le> mx" by simp
  show ?case
  proof (cases "s \<in> set pre")
    case True
    then have "card (set pre) = card (set (pre @ [s]))" by (simp add: insert_absorb)
    with sub Cons.prems(3) assms have "card (set pre) < 2 ^ 32" by simp
    from add_present [OF Cons.prems(1) True this]
    have a: "StringTable_add mx t s = (t, Inr (first_index pre s))" .
    from Cons.IH [OF table_inv_snoc_present [OF Cons.prems(1) True] rest c'] obtain t' where
      t': "add_all mx t ss = (t', Inr (map (first_index ((pre @ [s]) @ ss)) ss))"
          "table_inv t' ((pre @ [s]) @ ss)" by blast
    from True have "first_index (pre @ s # ss) s = first_index pre s"
      by (rule first_index_append)
    with a t' show ?thesis by (simp add: app)
  next
    case False
    then have "card (set (pre @ [s])) = card (set pre) + 1" by simp
    with sub Cons.prems(3) have lt: "card (set pre) < mx" by simp
    from Cons.prems(2) have s: "length s < 1024 * 1024" "NUL \<notin> set s" by simp_all
    from add_fresh [OF Cons.prems(1) False lt assms s] obtain t1 where
      t1: "StringTable_add mx t s = (t1, Inr (card (set pre) + 1))" "table_inv t1 (pre @ [s])"
      by blast
    from Cons.IH [OF t1(2) rest c'] obtain t' where
      t': "add_all mx t1 ss = (t', Inr (map (first_index ((pre @ [s]) @ ss)) ss))"
          "table_inv t' ((pre @ [s]) @ ss)" by blast
    from first_index_new [OF False, of ss] t1 t' show ?thesis by (simp add: app)
  qed
qed

lemma table_inv_new:
  "table_inv \<lparr>m_strings = \<lparr>m_chunk_size = 1024 * 1024, m_chunks = [[NUL]]\<rparr>,
               m_index = Map.empty, m_size32 = 0\<rparr> []"
  by (simp add: table_inv_def store_ok_def)

lemma Max_first_index:
  "Max (insert 0 (set (map (first_index ss) ss))) = card (set ss)"
proof (cases "ss = []")
  case True
  then show ?thesis by simp
next
  case False
  have "\<exists>x\<in>set ss. first_index ss x = card (set ss)" if "ss \<noteq> []" for ss :: "string list"
    using that
  proof (induction ss rule: rev_nonempty_induct)
    case (single s)
    from first_index_new [of s "[]" "[]"] show ?case by simp
  next
    case (snoc s pre)
    show ?case
    proof (cases "s \<in> set pre")
      case True
      from snoc.IH obtain x where x: "x \<in> set pre" "first_index pre x = card (set pre)" by blast
      from True have "card (set (pre @ [s])) = card (set pre)" by (simp add: insert_absorb)
      with x first_index_append [OF x(1), of "[s]"] show ?thesis by auto
    next
      case False
      from first_index_new [OF False, of "[]"] False show ?thesis by simp
    qed
  qed
  with False obtain x where x: "x \<in> set ss" "first_index ss x = card (set ss)" by blast
  show ?thesis
  proof (rule Max_eqI)
    show "finite (insert 0 (set (map (first_index ss) ss)))" by simp
    show "y \<le> card (set ss)" if "y \<in> insert 0 (set (map (first_index ss) ss))" for y
      using that first_index_le by auto
    show "card (set ss) \<in> insert 0 (set (map (first_index ss) ss))"
      using x by force
  qed
qed


text \<open>
  C10. The claim is that \<open>StringTable::add\<close> returns, for a string added before, the
  index of its first add and leaves \<open>size()\<close> unchanged, returns for a new string an
  index one larger than the largest one so far, and that \<open>size()\<close> is one more than the
  number of distinct strings added. It holds for the strings \<open>ss\<close> added in turn to a new
  table and one more string \<open>x\<close>, as long as each string fits a chunk of the store
  (\<open>strlen(s) + 1 <= 1024 * 1024\<close>) and the table has room (\<open>max_entries\<close> distinct
  strings at most).
\<close>

theorem StringTable_add_deduplicates:
  assumes "max_entries + 1 < 2 ^ 32"
    and "\<forall>s\<in>set (x # ss). length s < 1024 * 1024 \<and> NUL \<notin> set s"
    and "card (set (x # ss)) \<le> max_entries"
    and "StringTable_new = Inr t0"
  shows "\<exists>t is. add_all max_entries t0 ss = (t, Inr is) \<and> length is = length ss \<and>
           size_st t = card (set ss) + 1 \<and>
           (\<forall>i<length ss. \<forall>j<length ss. ss ! i = ss ! j \<longrightarrow> is ! i = is ! j) \<and>
           (\<forall>j<length ss. ss ! j = x \<longrightarrow> StringTable_add max_entries t x = (t, Inr (is ! j))) \<and>
           (x \<notin> set ss \<longrightarrow>
              (\<exists>t'. StringTable_add max_entries t x = (t', Inr (Max (insert 0 (set is)) + 1)) \<and>
                    size_st t' = size_st t + 1))"
proof -
  let ?is = "map (first_index ss) ss"
  from assms(1) have mx: "max_entries < 2 ^ 32" by simp
  have "card (set ss) \<le> card (set (x # ss))" by (intro card_mono) auto
  with assms(3) have c: "card (set ss) \<le> max_entries" by simp
  from assms(4) have t0: "table_inv t0 []"
    using table_inv_new by (simp add: StringTable_new_eq)
  from assms(2) have ok: "\<forall>s\<in>set ss. length s < 1024 * 1024 \<and> NUL \<notin> set s" by simp
  from add_all_inv [OF mx t0 ok] c obtain t where
    t: "add_all max_entries t0 ss = (t, Inr ?is)" "table_inv t ss" by auto
  from t(2) c assms(1) have sz: "size_st t = card (set ss) + 1"
    by (simp add: size_st_def table_inv_def)
  have present: "StringTable_add max_entries t x = (t, Inr (?is ! j))" if "j < length ss" "ss ! j = x" for j
  proof -
    from that have "x \<in> set ss" by auto
    moreover from c mx have "card (set ss) < 2 ^ 32" by simp
    ultimately show ?thesis using add_present [OF t(2)] that by simp
  qed
  have fresh: "\<exists>t'. StringTable_add max_entries t x = (t', Inr (Max (insert 0 (set ?is)) + 1)) \<and>
                    size_st t' = size_st t + 1" if "x \<notin> set ss"
  proof -
    from that assms(3) have lt: "card (set ss) < max_entries" by simp
    from assms(2) have "length x < 1024 * 1024" "NUL \<notin> set x" by simp_all
    from add_fresh [OF t(2) that lt mx this] obtain t' where
      t': "StringTable_add max_entries t x = (t', Inr (card (set ss) + 1))" "table_inv t' (ss @ [x])"
      by blast
    from t'(2) that lt assms(1) have "size_st t' = card (set ss) + 2"
      by (simp add: size_st_def table_inv_def)
    with t'(1) sz Max_first_index [of ss] show ?thesis by simp
  qed
  from t(1) sz present fresh show ?thesis
    by (intro exI [of _ t] exI [of _ ?is]) simp
qed

theorem StringTable_add_deduplicates_witness:
  "\<exists>t is. add_all (32 * 1024 * 1024)
            \<lparr>m_strings = \<lparr>m_chunk_size = 1024 * 1024, m_chunks = [[NUL]]\<rparr>,
               m_index = Map.empty, m_size32 = 0\<rparr> [''highway'', ''name'', ''highway''] = (t, Inr is) \<and>
          length is = 3 \<and> size_st t = 3 \<and> is ! 0 = is ! 2 \<and>
          StringTable_add (32 * 1024 * 1024) t ''name'' = (t, Inr (is ! 1))"
proof -
  let ?t0 = "\<lparr>m_strings = \<lparr>m_chunk_size = 1024 * 1024, m_chunks = [[NUL]]\<rparr>,
               m_index = Map.empty, m_size32 = 0\<rparr>"
  let ?ss = "[''highway'', ''name'', ''highway'']"
  have s: "set ?ss = {''highway'', ''name''}" "set (''name'' # ?ss) = {''highway'', ''name''}"
    by auto
  have h: "(32 * 1024 * 1024 :: nat) + 1 < 2 ^ 32"
    "\<forall>s\<in>set (''name'' # ?ss). length s < 1024 * 1024 \<and> NUL \<notin> set s"
    "card (set (''name'' # ?ss)) \<le> 32 * 1024 * 1024"
    "StringTable_new = Inr ?t0"
    by (simp_all only: s) (simp_all add: NUL_def StringTable_new_eq)
  from StringTable_add_deduplicates [OF h] obtain t "is" where
    a: "add_all (32 * 1024 * 1024) ?t0 ?ss = (t, Inr is)" "length is = length ?ss"
       "size_st t = card (set ?ss) + 1"
       "\<forall>i<length ?ss. \<forall>j<length ?ss. ?ss ! i = ?ss ! j \<longrightarrow> is ! i = is ! j"
       "\<forall>j<length ?ss. ?ss ! j = ''name'' \<longrightarrow>
          StringTable_add (32 * 1024 * 1024) t ''name'' = (t, Inr (is ! j))"
    by blast
  from a(4) have "is ! 0 = is ! 2" by simp
  moreover from a(5) have "StringTable_add (32 * 1024 * 1024) t ''name'' = (t, Inr (is ! 1))" by simp
  moreover from a(3) have "size_st t = 3" by (simp only: s) simp
  ultimately show ?thesis using a(1,2) by auto
qed

text \<open>
  Beyond these bounds \<open>add\<close> returns no index. A string of \<open>1024 * 1024\<close> characters
  fails the assertion of \<open>StringStore::add\<close>. And when \<open>max_entries\<close> distinct strings
  are in the table, the next new one makes \<open>add\<close> throw \<open>pbf_error\<close>, shown here for a
  \<open>max_entries\<close> of 2.
\<close>

theorem StringTable_add_refuses_counterexample:
  "StringTable_new =
     Inr \<lparr>m_strings = \<lparr>m_chunk_size = 1024 * 1024, m_chunks = [[NUL]]\<rparr>,
          m_index = Map.empty, m_size32 = 0\<rparr> \<and>
   StringTable_add (32 * 1024 * 1024)
     \<lparr>m_strings = \<lparr>m_chunk_size = 1024 * 1024, m_chunks = [[NUL]]\<rparr>,
        m_index = Map.empty, m_size32 = 0\<rparr> (replicate (1024 * 1024) CHR ''x'') =
     (\<lparr>m_strings = \<lparr>m_chunk_size = 1024 * 1024, m_chunks = [[NUL]]\<rparr>,
        m_index = Map.empty, m_size32 = 0\<rparr>, Inl Assertion_failed) \<and>
   snd (add_all 2
     \<lparr>m_strings = \<lparr>m_chunk_size = 1024 * 1024, m_chunks = [[NUL]]\<rparr>,
        m_index = Map.empty, m_size32 = 0\<rparr> [''a'', ''b'', ''c'']) = Inl Pbf_error"
  by (simp add: StringTable_new_eq StringTable_add_def StringStore_add_def Let_def add_chunk_def
        c_str_at_def NUL_def)

end
